theory Spec2Isabelle
  imports Complex_Main
begin

section \<open>Tile nodes\<close>

text \<open>
  JavaScript numbers are modelled as follows: tile coordinates, levels and counters, which the
  code only ever increments, decrements and compares, are \<open>int\<close>; geographic coordinates,
  radii and texel spacings are \<open>real\<close>, each expression standing for the number it denotes.
  Where the rounding or the special values of the doubles decide a result (the imagery level),
  the operations are those of the platform and are written out as such.
  A property that may be \<open>undefined\<close> is an \<open>option\<close>. Where several classes of the source
  have a property of the same name, the record fields carry a short prefix of the class.
\<close>

text \<open>Modelled from the spec: the enumeration \<open>TileState\<close> (TileState.js), with the states
  named in the per-tile state machine.\<close>

datatype TileState =
  UNLOADED | RECEIVED | TRANSFORMING | TRANSITIONING | READY | FAILED | INVALID

record extent =
  west :: real
  south :: real
  east :: real
  north :: real

text \<open>The tiling scheme is a collaborator of the code; it is a record of the properties and
  methods the code calls. A position is a pair (longitude, latitude), a tile coordinate a
  pair (x, y).\<close>

record tilingScheme =
  ellipsoid_getMaximumRadius :: real
  numberOfLevelZeroTilesX :: real
  positionToTileXY :: "real \<times> real \<Rightarrow> int \<Rightarrow> int \<times> int"
  tileXYToExtent :: "int \<Rightarrow> int \<Rightarrow> int \<Rightarrow> extent"
  extentToTileXY :: "extent \<Rightarrow> int \<Rightarrow> int \<times> int"
  tileXYToNativeExtent :: "int \<Rightarrow> int \<Rightarrow> int \<Rightarrow> extent"
  extentToNativeExtent :: "extent \<Rightarrow> extent"

text \<open>Modelled from the spec: the overlay binding \<open>TileImagery\<close> (TileImagery.js), with the
  fields the imagery layer reads and writes; a new binding is UNLOADED and has no URL, image
  or texture. Images and textures are handles.\<close>

record tileImagery =
  x :: int
  y :: int
  level :: int
  textureTranslation :: "real \<times> real"
  textureScale :: "real \<times> real"
  state :: TileState
  imageUrl :: "string option"
  image :: "nat option"
  texture :: "nat option"

definition TileImagery :: "int \<Rightarrow> int \<Rightarrow> int \<Rightarrow> real \<times> real \<Rightarrow> real \<times> real \<Rightarrow> tileImagery" where
  "TileImagery i j lvl translation scale =
     \<lparr>x = i, y = j, level = lvl, textureTranslation = translation, textureScale = scale,
      state = UNLOADED, imageUrl = None, image = None, texture = None\<rparr>"

text \<open>The argument of the \<open>Tile\<close> constructor. \<open>d_zoom\<close> is the property \<open>description.zoom\<close>,
  which the level check of the constructor reads.\<close>

record description =
  d_tilingScheme :: "tilingScheme option"
  d_x :: "int option"
  d_y :: "int option"
  d_level :: "int option"
  d_zoom :: "int option"
  d_extent :: "extent option"
  d_parent :: "nat option"

datatype DeveloperError =
  DescriptionRequired | ExtentOrXYRequired | XYNegative | LevelRequired | TilingSchemeRequired

text \<open>The fields of a constructed tile. When the description has no x or y, the first
  assignments of the constructor store \<open>undefined\<close>; they are overwritten from the extent
  before the constructor returns, so the record holds the final values.\<close>

record tile =
  t_tilingScheme :: tilingScheme
  t_x :: int
  t_y :: int
  t_level :: int
  t_parent :: "nat option"
  t_extent :: extent
  t_imagery :: "tileImagery list"
  t_state :: TileState

definition Tile :: "description option \<Rightarrow> DeveloperError + tile" where
  "Tile description =
    (case description of
       None \<Rightarrow> Inl DescriptionRequired
     | Some d \<Rightarrow>
        if (d_x d = None \<or> d_y d = None) \<and> d_extent d = None then Inl ExtentOrXYRequired
        else if \<not> (d_x d = None \<or> d_y d = None) \<and> (the (d_x d) < 0 \<or> the (d_y d) < 0)
          then Inl XYNegative
        else if d_level d = None \<or> (case d_zoom d of None \<Rightarrow> False | Some z \<Rightarrow> z < 0)
          then Inl LevelRequired
        else (case d_tilingScheme d of
           None \<Rightarrow> Inl TilingSchemeRequired
         | Some scheme \<Rightarrow>
            (case d_extent d of
               Some e \<Rightarrow>
                 (let coords = extentToTileXY scheme e (the (d_level d))
                  in Inr \<lparr>t_tilingScheme = scheme, t_x = fst coords, t_y = snd coords,
                          t_level = the (d_level d), t_parent = d_parent d, t_extent = e,
                          t_imagery = [], t_state = UNLOADED\<rparr>)
             | None \<Rightarrow>
                 Inr \<lparr>t_tilingScheme = scheme, t_x = the (d_x d), t_y = the (d_y d),
                      t_level = the (d_level d), t_parent = d_parent d,
                      t_extent = tileXYToExtent scheme (the (d_x d)) (the (d_y d)) (the (d_level d)),
                      t_imagery = [], t_state = UNLOADED\<rparr>)))"

section \<open>Imagery layer: level selection and alignment\<close>

text \<open>Modelled from the spec: \<open>Extent.intersectWith\<close>, \<open>getNorthwest\<close>, \<open>getSoutheast\<close> and
  \<open>Extent.MAX_VALUE\<close> (Core/Extent.js). The intersection takes the larger of the west and south
  bounds and the smaller of the east and north bounds, so that [-1,-1,1,1] with [0,0,2,2] gives
  [0,0,1,1] and disjoint rectangles give east \<open>\<le>\<close> west or north \<open>\<le>\<close> south.\<close>

definition intersectWith :: "extent \<Rightarrow> extent \<Rightarrow> extent" where
  "intersectWith a b =
     \<lparr>west = max (west a) (west b), south = max (south a) (south b),
      east = min (east a) (east b), north = min (north a) (north b)\<rparr>"

definition getNorthwest :: "extent \<Rightarrow> real \<times> real" where
  "getNorthwest e = (west e, north e)"

definition getSoutheast :: "extent \<Rightarrow> real \<times> real" where
  "getSoutheast e = (east e, south e)"

definition MAX_VALUE :: extent where
  "MAX_VALUE = \<lparr>west = - pi, south = - (pi / 2), east = pi, north = pi / 2\<rparr>"

text \<open>Modelled from the spec: \<open>CesiumMath.EPSILON10\<close> (Core/Math.js), the small epsilon of the
  edge adjustment.\<close>

definition EPSILON10 :: real where
  "EPSILON10 = 1 / 10 ^ 10"

record imageryProvider =
  ip_tilingScheme :: tilingScheme
  ip_extent :: extent
  maxLevel :: int
  tileWidth :: real

record imageryLayer =
  il_imageryProvider :: imageryProvider
  il_extent :: extent
  maxScreenSpaceError :: real
  alpha :: real
  tileFailCount :: int
  maxTileFailCount :: int
  perTileMaxFailCount :: int
  failedTileRetryTime :: real
  levelZeroMaximumTexelSpacing :: "real option"

text \<open>The level is decided by double arithmetic: two divisions, \<open>Math.log\<close>, \<open>Math.round\<close>
  and \<open>| 0\<close>. A double is the real number it denotes, or one of the three special values. The
  division and \<open>Math.log\<close> round their results, the latter in a way the language leaves to the
  platform, so both are parameters of the model (the platform's arithmetic): nothing is assumed
  about the values they return. \<open>Math.round\<close> gives the nearest integer, a tie towards plus
  infinity, and keeps the special values; \<open>v | 0\<close> is the conversion to a signed 32-bit
  integer, which truncates, wraps around modulo 2^32, and gives 0 for the special values.\<close>

datatype jsdouble = Double real | Infinity | NegInfinity | NotANumber

record jsMath =
  fp_divide :: "jsdouble \<Rightarrow> jsdouble \<Rightarrow> jsdouble"
  fp_log :: "jsdouble \<Rightarrow> jsdouble"

definition Math_round :: "jsdouble \<Rightarrow> jsdouble" where
  "Math_round v = (case v of Double r \<Rightarrow> Double (of_int \<lfloor>r + 1 / 2\<rfloor>) | _ \<Rightarrow> v)"

definition ToInt32 :: "jsdouble \<Rightarrow> int" where
  "ToInt32 v =
     (case v of
        Double r \<Rightarrow> ((if 0 \<le> r then \<lfloor>r\<rfloor> else \<lceil>r\<rceil>) + 2 ^ 31) mod 2 ^ 32 - 2 ^ 31
      | _ \<Rightarrow> 0)"

text \<open>\<open>_getLevelWithMaximumTexelSpacing\<close>: the condition around the computation of the level-zero
  spacing is commented out in the source, so the spacing is computed and stored on every
  call. The spacing is kept as the real number its expression denotes. The result is the level
  and the updated layer.\<close>

definition getLevelWithMaximumTexelSpacing ::
  "jsMath \<Rightarrow> imageryLayer \<Rightarrow> real \<Rightarrow> real \<Rightarrow> int \<times> imageryLayer" where
  "getLevelWithMaximumTexelSpacing math layer texelSpacing latitudeClosestToEquator =
    (let provider = il_imageryProvider layer;
         scheme = ip_tilingScheme provider;
         latitudeFactor = cos latitudeClosestToEquator;
         spacing = ellipsoid_getMaximumRadius scheme * 2 * pi * latitudeFactor
                     / (tileWidth provider * numberOfLevelZeroTilesX scheme);
         layer' = layer\<lparr>levelZeroMaximumTexelSpacing := Some spacing\<rparr>;
         twoToTheLevelPower = fp_divide math (Double spacing) (Double texelSpacing);
         lvl = fp_divide math (fp_log math twoToTheLevelPower) (fp_log math (Double 2));
         rounded = Math_round lvl
     in (ToInt32 rounded, layer'))"

text \<open>The pieces of \<open>createTileImagerySkeletons\<close>: the overlap of the terrain tile with the
  provider's and the layer's extents, the latitude closest to the equator, the corner tiles
  after the edge adjustment, and the body of the double loop.\<close>

definition overlapExtent :: "imageryLayer \<Rightarrow> tile \<Rightarrow> extent" where
  "overlapExtent layer tile =
     intersectWith (intersectWith (t_extent tile) (ip_extent (il_imageryProvider layer)))
       (il_extent layer)"

definition latitudeClosestToEquator :: "extent \<Rightarrow> real" where
  "latitudeClosestToEquator e =
     (if south e > 0 then south e else if north e < 0 then north e else 0)"

definition northwestTileCoordinates :: "tilingScheme \<Rightarrow> extent \<Rightarrow> int \<Rightarrow> int \<times> int" where
  "northwestTileCoordinates scheme e imageryLevel =
    (let c = positionToTileXY scheme (getNorthwest e) imageryLevel;
         northwestTileExtent = tileXYToExtent scheme (fst c) (snd c) imageryLevel;
         cy = (if \<bar>south northwestTileExtent - north e\<bar> < EPSILON10 then snd c + 1 else snd c);
         cx = (if \<bar>east northwestTileExtent - west e\<bar> < EPSILON10 then fst c + 1 else fst c)
     in (cx, cy))"

definition southeastTileCoordinates :: "tilingScheme \<Rightarrow> extent \<Rightarrow> int \<Rightarrow> int \<times> int" where
  "southeastTileCoordinates scheme e imageryLevel =
    (let c = positionToTileXY scheme (getSoutheast e) imageryLevel;
         southeastTileExtent = tileXYToExtent scheme (fst c) (snd c) imageryLevel;
         cy = (if \<bar>north southeastTileExtent - south e\<bar> < EPSILON10 then snd c - 1 else snd c);
         cx = (if \<bar>west southeastTileExtent - east e\<bar> < EPSILON10 then fst c - 1 else fst c)
     in (cx, cy))"

definition skeleton :: "tilingScheme \<Rightarrow> extent \<Rightarrow> int \<Rightarrow> int \<Rightarrow> int \<Rightarrow> tileImagery" where
  "skeleton scheme terrainExtent imageryLevel i j =
    (let terrainWidth = east terrainExtent - west terrainExtent;
         terrainHeight = north terrainExtent - south terrainExtent;
         imageryExtent = tileXYToNativeExtent scheme i j imageryLevel;
         translation = ((west imageryExtent - west terrainExtent) / terrainWidth,
                        (south imageryExtent - south terrainExtent) / terrainHeight);
         scale = ((east imageryExtent - west imageryExtent) / terrainWidth,
                  (north imageryExtent - south imageryExtent) / terrainHeight)
     in TileImagery i j imageryLevel translation scale)"

text \<open>\<open>createTileImagerySkeletons\<close>: the terrain provider is its method
  \<open>getLevelMaximumGeometricError\<close>, and \<open>math\<close> the platform's arithmetic. The result is
  the returned boolean, the layer (whose stored level-zero spacing the level computation
  overwrites) and the tile with the new bindings pushed onto \<open>imagery\<close>, x outermost.\<close>

definition createTileImagerySkeletons ::
  "jsMath \<Rightarrow> imageryLayer \<Rightarrow> tile \<Rightarrow> (int \<Rightarrow> real) \<Rightarrow> bool \<times> imageryLayer \<times> tile" where
  "createTileImagerySkeletons math layer tile getLevelMaximumGeometricError =
    (let provider = il_imageryProvider layer;
         imageryTilingScheme = ip_tilingScheme provider;
         e = overlapExtent layer tile
     in if east e \<le> west e \<or> north e \<le> south e then (False, layer, tile)
        else
          (let errorRatio = 1;
               targetGeometricError = errorRatio * getLevelMaximumGeometricError (t_level tile);
               r = getLevelWithMaximumTexelSpacing math layer targetGeometricError
                     (latitudeClosestToEquator e);
               imageryLevel = max 0 (min (maxLevel provider) (fst r));
               nw = northwestTileCoordinates imageryTilingScheme e imageryLevel;
               se = southeastTileCoordinates imageryTilingScheme e imageryLevel;
               terrainExtent = extentToNativeExtent imageryTilingScheme (t_extent tile);
               new = concat (map (\<lambda>i. map (\<lambda>j. skeleton imageryTilingScheme terrainExtent imageryLevel i j)
                                          [snd nw .. snd se])
                                [fst nw .. fst se])
           in (True, snd r, tile\<lparr>t_imagery := t_imagery tile @ new\<rparr>)))"

text \<open>The bindings a call appended to the tile.\<close>

definition appended :: "tile \<Rightarrow> tile \<Rightarrow> tileImagery list" where
  "appended tile tile' = drop (length (t_imagery tile)) (t_imagery tile')"



text \<open>Sample data for concrete evaluations: a tiling scheme with a single tile covering the
  unit square at every level on an ellipsoid of radius 1, a provider and a layer over it, and
  a terrain tile of a given extent.\<close>

definition unitExtent :: extent where
  "unitExtent = \<lparr>west = 0, south = 0, east = 1, north = 1\<rparr>"

definition sampleScheme :: tilingScheme where
  "sampleScheme =
     \<lparr>ellipsoid_getMaximumRadius = 1, numberOfLevelZeroTilesX = 1,
      positionToTileXY = (\<lambda>p lvl. (0, 0)),
      tileXYToExtent = (\<lambda>i j lvl. unitExtent),
      extentToTileXY = (\<lambda>e lvl. (0, 0)),
      tileXYToNativeExtent = (\<lambda>i j lvl. unitExtent),
      extentToNativeExtent = (\<lambda>e. e)\<rparr>"

definition sampleLayer :: imageryLayer where
  "sampleLayer =
     \<lparr>il_imageryProvider =
        \<lparr>ip_tilingScheme = sampleScheme, ip_extent = unitExtent, maxLevel = 5, tileWidth = 1\<rparr>,
      il_extent = unitExtent, maxScreenSpaceError = 1, alpha = 1, tileFailCount = 0,
      maxTileFailCount = 10, perTileMaxFailCount = 3, failedTileRetryTime = 5,
      levelZeroMaximumTexelSpacing = None\<rparr>"

text \<open>A sample platform: division and logarithm with the special values of the doubles and
  with overflow to infinity, and without rounding error.\<close>

definition sampleMath :: jsMath where
  "sampleMath =
     \<lparr>fp_divide = (\<lambda>a b.
        case a of
          Double u \<Rightarrow>
            (case b of
               Double v \<Rightarrow>
                 if v = 0 then (if u = 0 then NotANumber else if 0 < u then Infinity else NegInfinity)
                 else if 2 ^ 1024 \<le> \<bar>u / v\<bar> then (if 0 < u / v then Infinity else NegInfinity)
                 else Double (u / v)
             | Infinity \<Rightarrow> Double 0
             | NegInfinity \<Rightarrow> Double 0
             | NotANumber \<Rightarrow> NotANumber)
        | Infinity \<Rightarrow>
            (case b of Double v \<Rightarrow> if 0 \<le> v then Infinity else NegInfinity | _ \<Rightarrow> NotANumber)
        | NegInfinity \<Rightarrow>
            (case b of Double v \<Rightarrow> if 0 \<le> v then NegInfinity else Infinity | _ \<Rightarrow> NotANumber)
        | NotANumber \<Rightarrow> NotANumber),
      fp_log = (\<lambda>a.
        case a of
          Double u \<Rightarrow> if u < 0 then NotANumber else if u = 0 then NegInfinity else Double (ln u)
        | Infinity \<Rightarrow> Infinity
        | _ \<Rightarrow> NotANumber)\<rparr>"

definition sampleTile :: "extent \<Rightarrow> tile" where
  "sampleTile e =
     \<lparr>t_tilingScheme = sampleScheme, t_x = 0, t_y = 0, t_level = 0, t_parent = None,
      t_extent = e, t_imagery = [], t_state = UNLOADED\<rparr>"

section \<open>Imagery layer: fetch, cache and admission control\<close>

text \<open>\<open>activeTileImageRequests\<close> is a plain object: its own properties are the entries the
  code has stored, and a read of a name it does not have itself finds the property every
  object inherits from \<open>Object.prototype\<close>, if there is one of that name. The values read
  and stored are therefore: an integer counter; \<open>NaN\<close>, which \<open>--\<close> stores for anything that
  is not a number; an inherited function or object; and the text \<open>+ 1\<close> makes of such a value
  (its source text followed by 1), which is not a numeral. A comparison of anything but a
  number with 6 is false; \<open>+ 1\<close> on a text or an inherited value gives a text, and on \<open>NaN\<close>
  gives \<open>NaN\<close>. An assignment of a number or a text to \<open>__proto__\<close> is ignored by that
  property's setter and creates no entry.\<close>

datatype jsvalue = Num int | NaN | Text | Inherited

text \<open>The names of the properties of \<open>Object.prototype\<close>, as the language standard and
  its annex for browsers have them.\<close>

definition ObjectPrototype :: "string set" where
  "ObjectPrototype =
     {''constructor'', ''toString'', ''toLocaleString'', ''valueOf'', ''hasOwnProperty'',
      ''isPrototypeOf'', ''propertyIsEnumerable'', ''__proto__'', ''__defineGetter__'',
      ''__defineSetter__'', ''__lookupGetter__'', ''__lookupSetter__''}"

definition js_get :: "(string \<rightharpoonup> jsvalue) \<Rightarrow> string \<Rightarrow> jsvalue option" where
  "js_get obj k =
     (case obj k of
        Some v \<Rightarrow> Some v
      | None \<Rightarrow> if k \<in> ObjectPrototype then Some Inherited else None)"

definition js_set :: "(string \<rightharpoonup> jsvalue) \<Rightarrow> string \<Rightarrow> jsvalue \<Rightarrow> (string \<rightharpoonup> jsvalue)" where
  "js_set obj k v = (if k = ''__proto__'' then obj else obj(k \<mapsto> v))"

fun js_greater :: "jsvalue \<Rightarrow> int \<Rightarrow> bool" where
  "js_greater (Num n) k = (n > k)"
| "js_greater v k = False"

fun js_plus_one :: "jsvalue \<Rightarrow> jsvalue" where
  "js_plus_one (Num n) = Num (n + 1)"
| "js_plus_one NaN = NaN"
| "js_plus_one v = Text"

text \<open>The value \<open>o[k]--\<close> stores, from the value it reads.\<close>

definition js_decrement :: "jsvalue option \<Rightarrow> jsvalue" where
  "js_decrement v = (case v of Some (Num n) \<Rightarrow> Num (n - 1) | _ \<Rightarrow> NaN)"

text \<open>Modelled from the spec: \<open>defaultValue\<close> (Core/defaultValue.js), the first argument unless
  it is undefined, and the content-addressed \<open>ImageryCache\<close> (ImageryCache.js), keyed by the
  resolved image URL: \<open>get\<close> looks the URL up, \<open>beginAdd\<close> marks an entry as pending (an
  item without texture), \<open>abortAdd\<close> removes the entry. \<open>abortAdd\<close> is called with the
  binding's \<open>imageUrl\<close>, which may be undefined; no entry is removed then.\<close>

definition defaultValue :: "'a option \<Rightarrow> 'a \<Rightarrow> 'a" where
  "defaultValue a b = (case a of None \<Rightarrow> b | Some v \<Rightarrow> v)"

record cacheItem =
  ci_texture :: "nat option"

definition beginAdd :: "string \<Rightarrow> (string \<rightharpoonup> cacheItem) \<Rightarrow> (string \<rightharpoonup> cacheItem)" where
  "beginAdd url cache = cache(url \<mapsto> \<lparr>ci_texture = None\<rparr>)"

definition abortAdd :: "string option \<Rightarrow> (string \<rightharpoonup> cacheItem) \<Rightarrow> (string \<rightharpoonup> cacheItem)" where
  "abortAdd url cache = (case url of None \<Rightarrow> cache | Some u \<Rightarrow> cache(u := None))"

text \<open>The state \<open>requestImagery\<close> shares between calls: the module-level object
  \<open>activeTileImageRequests\<close> and the layer's cache.\<close>

record imageryWorld =
  activeTileImageRequests :: "string \<rightharpoonup> jsvalue"
  imageryCache :: "string \<rightharpoonup> cacheItem"

text \<open>\<open>requestImagery\<close> is a chain of three callbacks. The first runs when \<open>buildImageUrl\<close> has
  resolved to \<open>imageUrl\<close>. \<open>getHostname\<close> is the browser's URL parser and a parameter here. The
  result is the new shared state, the binding, and the value of the variable \<open>hostname\<close> when
  the callback went on to call \<open>requestImage\<close> (\<open>None\<close> when it returned false instead: a
  cache hit or a postponed load). \<open>issueRequest\<close> is the tail of the callback, from \<open>beginAdd\<close>
  on.\<close>

definition issueRequest ::
  "string \<Rightarrow> string \<Rightarrow> imageryWorld \<Rightarrow> tileImagery \<Rightarrow> imageryWorld \<times> tileImagery \<times> string option" where
  "issueRequest url hostname w ti =
     (w\<lparr>imageryCache := beginAdd url (imageryCache w)\<rparr>, ti\<lparr>imageUrl := Some url\<rparr>, Some hostname)"

definition requestImagery_resolved ::
  "(string \<Rightarrow> string) \<Rightarrow> string \<Rightarrow> imageryWorld \<Rightarrow> tileImagery
     \<Rightarrow> imageryWorld \<times> tileImagery \<times> string option" where
  "requestImagery_resolved getHostname url w ti =
    (case imageryCache w url of
       Some cacheItem \<Rightarrow>
         (case ci_texture cacheItem of
            None \<Rightarrow> (w, ti\<lparr>state := UNLOADED\<rparr>, None)
          | Some tex \<Rightarrow> (w, ti\<lparr>texture := Some tex, state := READY\<rparr>, None))
     | None \<Rightarrow>
         (let hostname = getHostname url
          in if hostname \<noteq> [] then
               (let activeRequestsForHostname =
                      defaultValue (js_get (activeTileImageRequests w) hostname) (Num 0)
                in if js_greater activeRequestsForHostname 6
                   then (w, ti\<lparr>state := UNLOADED\<rparr>, None)
                   else issueRequest url hostname
                          (w\<lparr>activeTileImageRequests :=
                               js_set (activeTileImageRequests w) hostname
                                 (js_plus_one activeRequestsForHostname)\<rparr>) ti)
             else issueRequest url hostname w ti))"

text \<open>The value \<open>requestImage\<close> resolves to: a decoded image, or undefined.\<close>

datatype response = Image nat | NoImage

text \<open>The second callback, for a fetch that was issued (for the boolean false of the first
  callback it returns at once): \<open>hostname\<close> is the variable the first callback assigned.\<close>

definition requestImagery_fulfilled ::
  "string \<Rightarrow> response \<Rightarrow> imageryWorld \<Rightarrow> tileImagery \<Rightarrow> imageryWorld \<times> tileImagery" where
  "requestImagery_fulfilled hostname img w ti =
    (let w1 = w\<lparr>activeTileImageRequests :=
                  js_set (activeTileImageRequests w) hostname
                    (js_decrement (js_get (activeTileImageRequests w) hostname))\<rparr>
     in case img of
          NoImage \<Rightarrow>
            (w1\<lparr>imageryCache := abortAdd (imageUrl ti) (imageryCache w1)\<rparr>,
             ti\<lparr>image := None, state := INVALID\<rparr>)
        | Image i \<Rightarrow> (w1, ti\<lparr>image := Some i, state := RECEIVED\<rparr>))"

text \<open>The third callback, for a fetch that failed.\<close>

definition requestImagery_rejected :: "imageryWorld \<Rightarrow> tileImagery \<Rightarrow> imageryWorld \<times> tileImagery" where
  "requestImagery_rejected w ti =
     (w\<lparr>imageryCache := abortAdd (imageUrl ti) (imageryCache w)\<rparr>, ti\<lparr>state := FAILED\<rparr>)"

text \<open>Several requests interleaved: the shared state, the bindings by number, and the fetches
  issued and not yet completed, each with its binding and the \<open>hostname\<close> of its call. An
  event is a call of \<open>requestImagery\<close> on a binding whose URL resolves to the given string, or
  the completion, in any order, of the fetch at a position of the list.\<close>

record system =
  world :: imageryWorld
  bindings :: "nat \<Rightarrow> tileImagery"
  inFlight :: "(nat \<times> string) list"

datatype event = Request nat string | Fulfil nat response | Reject nat

definition complete :: "nat \<Rightarrow> (nat \<times> string) list \<Rightarrow> (nat \<times> string) list" where
  "complete k fs = take k fs @ drop (Suc k) fs"

fun step :: "(string \<Rightarrow> string) \<Rightarrow> system \<Rightarrow> event \<Rightarrow> system" where
  "step getHostname s (Request b url) =
     (case requestImagery_resolved getHostname url (world s) (bindings s b) of
        (w, ti, issued) \<Rightarrow>
          s\<lparr>world := w, bindings := (bindings s)(b := ti),
            inFlight := (case issued of None \<Rightarrow> inFlight s | Some h \<Rightarrow> inFlight s @ [(b, h)])\<rparr>)"
| "step getHostname s (Fulfil k img) =
     (if k < length (inFlight s) then
        (case inFlight s ! k of
           (b, h) \<Rightarrow>
             (case requestImagery_fulfilled h img (world s) (bindings s b) of
                (w, ti) \<Rightarrow> s\<lparr>world := w, bindings := (bindings s)(b := ti),
                              inFlight := complete k (inFlight s)\<rparr>))
      else s)"
| "step getHostname s (Reject k) =
     (if k < length (inFlight s) then
        (case inFlight s ! k of
           (b, h) \<Rightarrow>
             (case requestImagery_rejected (world s) (bindings s b) of
                (w, ti) \<Rightarrow> s\<lparr>world := w, bindings := (bindings s)(b := ti),
                              inFlight := complete k (inFlight s)\<rparr>))
      else s)"

definition run :: "(string \<Rightarrow> string) \<Rightarrow> system \<Rightarrow> event list \<Rightarrow> system" where
  "run getHostname s evs = foldl (step getHostname) s evs"

text \<open>At the start no request has been made: no counter, nothing in flight.\<close>

definition start :: "(string \<rightharpoonup> cacheItem) \<Rightarrow> (nat \<Rightarrow> tileImagery) \<Rightarrow> system" where
  "start cache bs =
     \<lparr>world = \<lparr>activeTileImageRequests = Map.empty, imageryCache = cache\<rparr>,
      bindings = bs, inFlight = []\<rparr>"

definition fetchesTo :: "string \<Rightarrow> system \<Rightarrow> nat" where
  "fetchesTo h s = length (filter (\<lambda>f. snd f = h) (inFlight s))"

text \<open>Sample data: bindings that are all new, and URLs that all resolve to one host.\<close>

definition newBindings :: "nat \<Rightarrow> tileImagery" where
  "newBindings b = TileImagery (int b) 0 0 (0, 0) (1, 1)"

definition oneHost :: "string \<Rightarrow> string" where
  "oneHost url = ''tiles.example''"

definition noHost :: "string \<Rightarrow> string" where
  "noHost url = []"

definition sevenRequests :: "event list" where
  "sevenRequests =
     [Request 1 ''a/1'', Request 2 ''a/2'', Request 3 ''a/3'', Request 4 ''a/4'',
      Request 5 ''a/5'', Request 6 ''a/6'', Request 7 ''a/7'']"

text \<open>Two invariants of admission control for a host. The first holds after any sequence of
  events: the host's counter is a number, not below the number of fetches in flight to the
  host and not above 7. The second holds as long as no fetch has failed: the counter is the
  number of fetches in flight to the host.\<close>

definition admitted :: "string \<Rightarrow> system \<Rightarrow> bool" where
  "admitted h s \<longleftrightarrow>
     (\<exists>n. defaultValue (js_get (activeTileImageRequests (world s)) h) (Num 0) = Num n
          \<and> int (fetchesTo h s) \<le> n \<and> n \<le> 7)"

definition counted :: "string \<Rightarrow> system \<Rightarrow> bool" where
  "counted h s \<longleftrightarrow>
     defaultValue (js_get (activeTileImageRequests (world s)) h) (Num 0) = Num (int (fetchesTo h s))"

fun noFailure :: "event list \<Rightarrow> bool" where
  "noFailure [] = True"
| "noFailure (Reject k # evs) = False"
| "noFailure (ev # evs) = noFailure evs"

text \<open>Sample data: nine requests, with nine URLs, whose host is named \<open>constructor\<close>.\<close>

definition constructorHost :: "string \<Rightarrow> string" where
  "constructorHost url = ''constructor''"

definition nineRequests :: "event list" where
  "nineRequests =
     [Request 1 ''a/1'', Request 2 ''a/2'', Request 3 ''a/3'', Request 4 ''a/4'',
      Request 5 ''a/5'', Request 6 ''a/6'', Request 7 ''a/7'', Request 8 ''a/8'',
      Request 9 ''a/9'']"

section \<open>Tile replacement queue\<close>

text \<open>The queue links the tile objects themselves, through their properties
  \<open>_replacementPrevious\<close> and \<open>_replacementNext\<close>. Tiles are addressed by number, and every
  property the queue or \<open>freeResources\<close> touches is a function from tiles to values; a missing
  or undefined link is \<open>None\<close>. The properties \<open>freeResources\<close> releases are gathered in a
  record of handles (the calls to \<open>destroy\<close> on the handles, and the reference count of a
  shared index buffer, belong to the graphics collaborator and are not modelled). The
  \<open>children\<close> of a tile, which no queue operation changes, are the finite trees of tiles
  below it: \<open>getChildren\<close> is the only writer of that property and creates new tiles.\<close>

record tileResources =
  doneLoading :: bool
  renderable :: bool
  vertexArray :: "nat option"
  geometry :: "nat option"
  transformedGeometry :: "nat option"
  imagery :: "nat list"

datatype tileTree = TileTree nat "tileTree list"

record queueWorld =
  head :: "nat option"
  tail :: "nat option"
  count :: int
  lastBeforeStartOfFrame :: "nat option"
  replacementPrevious :: "nat \<Rightarrow> nat option"
  replacementNext :: "nat \<Rightarrow> nat option"
  tileState :: "nat \<Rightarrow> TileState"
  resources :: "nat \<Rightarrow> tileResources"
  children :: "nat \<Rightarrow> tileTree list"

text \<open>A property access on \<open>undefined\<close> throws.\<close>

datatype jsError = TypeError

text \<open>The constructor \<open>TileReplacementQueue\<close>, over tiles none of which has a link yet.\<close>

definition TileReplacementQueue ::
  "(nat \<Rightarrow> TileState) \<Rightarrow> (nat \<Rightarrow> tileResources) \<Rightarrow> (nat \<Rightarrow> tileTree list) \<Rightarrow> queueWorld" where
  "TileReplacementQueue st rs ch =
     \<lparr>head = None, tail = None, count = 0, lastBeforeStartOfFrame = None,
      replacementPrevious = (\<lambda>t. None), replacementNext = (\<lambda>t. None),
      tileState = st, resources = rs, children = ch\<rparr>"

text \<open>\<open>Tile.freeResources\<close>: the tile's own properties first, then its children in order.\<close>

definition releaseTile :: "nat \<Rightarrow> queueWorld \<Rightarrow> queueWorld" where
  "releaseTile t q =
     q\<lparr>tileState := (tileState q)(t := UNLOADED),
       resources := (resources q)
         (t := \<lparr>doneLoading = False, renderable = False, vertexArray = None, geometry = None,
                transformedGeometry = None, imagery = []\<rparr>)\<rparr>"

fun freeTree :: "tileTree \<Rightarrow> queueWorld \<Rightarrow> queueWorld" where
  "freeTree (TileTree t cs) q = fold freeTree cs (releaseTile t q)"

definition freeResources :: "nat \<Rightarrow> queueWorld \<Rightarrow> queueWorld" where
  "freeResources t q = freeTree (TileTree t (children q t)) q"

definition markStartOfRenderFrame :: "queueWorld \<Rightarrow> queueWorld" where
  "markStartOfRenderFrame q = q\<lparr>lastBeforeStartOfFrame := head q\<rparr>"

text \<open>\<open>_remove\<close>.\<close>

definition queue_remove :: "nat \<Rightarrow> queueWorld \<Rightarrow> jsError + queueWorld" where
  "queue_remove item q =
    (let previous = replacementPrevious q item;
         next = replacementNext q item;
         q1 = (if Some item = lastBeforeStartOfFrame q then q\<lparr>lastBeforeStartOfFrame := next\<rparr> else q)
     in case (if Some item = head q1 then Inr (q1\<lparr>head := next\<rparr>)
              else (case previous of
                      None \<Rightarrow> Inl TypeError
                    | Some p \<Rightarrow> Inr (q1\<lparr>replacementNext := (replacementNext q1)(p := next)\<rparr>))) of
          Inl e \<Rightarrow> Inl e
        | Inr q2 \<Rightarrow>
           (case (if Some item = tail q2 then Inr (q2\<lparr>tail := previous\<rparr>)
                  else (case next of
                          None \<Rightarrow> Inl TypeError
                        | Some n \<Rightarrow> Inr (q2\<lparr>replacementPrevious := (replacementPrevious q2)(n := previous)\<rparr>))) of
              Inl e \<Rightarrow> Inl e
            | Inr q3 \<Rightarrow>
               Inr (q3\<lparr>replacementPrevious := (replacementPrevious q3)(item := None),
                       replacementNext := (replacementNext q3)(item := None),
                       count := count q3 - 1\<rparr>)))"

text \<open>\<open>markTileRendered\<close>, branch by branch; \<open>insertAtHead\<close> is its last part, from
  \<open>var insertAfter\<close> on.\<close>

definition insertAtHead :: "nat \<Rightarrow> nat \<Rightarrow> queueWorld \<Rightarrow> queueWorld" where
  "insertAtHead item insertionPoint q =
    (let insertAfter = replacementPrevious q insertionPoint;
         q1 = q\<lparr>replacementPrevious := (replacementPrevious q)(item := insertAfter)\<rparr>;
         q2 = (case insertAfter of
                 None \<Rightarrow> q1
               | Some a \<Rightarrow> q1\<lparr>replacementNext := (replacementNext q1)(a := Some item)\<rparr>);
         q3 = q2\<lparr>replacementNext := (replacementNext q2)(item := Some insertionPoint)\<rparr>;
         q4 = q3\<lparr>replacementPrevious := (replacementPrevious q3)(insertionPoint := Some item)\<rparr>
     in if Some insertionPoint = head q4 then q4\<lparr>head := Some item\<rparr> else q4)"

definition markTileRendered :: "nat \<Rightarrow> queueWorld \<Rightarrow> jsError + queueWorld" where
  "markTileRendered item q =
    (let insertionPoint = head q
     in if insertionPoint = Some item then
          Inr (if Some item = lastBeforeStartOfFrame q
               then q\<lparr>lastBeforeStartOfFrame := replacementNext q item\<rparr> else q)
        else
          (let q1 = q\<lparr>count := count q + 1\<rparr>
           in if head q1 = None then
                Inr (q1\<lparr>replacementPrevious := (replacementPrevious q1)(item := None),
                        replacementNext := (replacementNext q1)(item := None),
                        head := Some item, tail := Some item\<rparr>)
              else
                (case (if replacementPrevious q1 item \<noteq> None \<or> replacementNext q1 item \<noteq> None
                       then queue_remove item q1 else Inr q1) of
                   Inl e \<Rightarrow> Inl e
                 | Inr q2 \<Rightarrow>
                    (case insertionPoint of
                       None \<Rightarrow>
                         (if head q2 = None then
                            Inr (q2\<lparr>replacementPrevious := (replacementPrevious q2)(item := None),
                                    replacementNext := (replacementNext q2)(item := None),
                                    head := Some item, tail := Some item\<rparr>)
                          else
                            (case tail q2 of
                               None \<Rightarrow> Inl TypeError
                             | Some oldTail \<Rightarrow>
                                 Inr (q2\<lparr>replacementPrevious := (replacementPrevious q2)(item := tail q2),
                                         replacementNext := (replacementNext q2)(item := None, oldTail := Some item),
                                         tail := Some item\<rparr>)))
                     | Some ip \<Rightarrow> Inr (insertAtHead item ip q2)))))"

text \<open>\<open>trimTiles\<close>: the loop may run for ever on links that form a cycle, so it is a partial
  function, and \<open>None\<close> is a call that does not return.\<close>

partial_function (option) trimLoop ::
  "int \<Rightarrow> nat option \<Rightarrow> bool \<Rightarrow> queueWorld \<Rightarrow> (jsError + queueWorld) option" where
  "trimLoop maxTiles tileToTrim keepTrimming q =
    (case tileToTrim of
       None \<Rightarrow> Some (Inr q)
     | Some t \<Rightarrow>
        if keepTrimming \<and> lastBeforeStartOfFrame q \<noteq> None \<and> count q > maxTiles then
          (let keepTrimming' = (Some t \<noteq> lastBeforeStartOfFrame q);
               previous = replacementPrevious q t
           in if tileState q t \<noteq> TRANSITIONING then
                (case queue_remove t (freeResources t q) of
                   Inl e \<Rightarrow> Some (Inl e)
                 | Inr q' \<Rightarrow> trimLoop maxTiles previous keepTrimming' q')
              else trimLoop maxTiles previous keepTrimming' q)
        else Some (Inr q))"

definition trimTiles :: "int \<Rightarrow> queueWorld \<Rightarrow> (jsError + queueWorld) option" where
  "trimTiles maxTiles q = trimLoop maxTiles (tail q) True q"

text \<open>A sequence of calls on the queue; it stops at the first call that throws or does not
  return.\<close>

datatype queueCall = MarkStartOfRenderFrame | MarkTileRendered nat | TrimTiles int

fun perform :: "queueCall \<Rightarrow> queueWorld \<Rightarrow> (jsError + queueWorld) option" where
  "perform MarkStartOfRenderFrame q = Some (Inr (markStartOfRenderFrame q))"
| "perform (MarkTileRendered item) q = Some (markTileRendered item q)"
| "perform (TrimTiles maxTiles) q = trimTiles maxTiles q"

fun performAll :: "queueCall list \<Rightarrow> queueWorld \<Rightarrow> (jsError + queueWorld) option" where
  "performAll [] q = Some (Inr q)"
| "performAll (c # cs) q =
     (case perform c q of
        Some (Inr q') \<Rightarrow> performAll cs q'
      | r \<Rightarrow> r)"

text \<open>The list a queue represents, from the head to the tail: the links of a list's members
  are its neighbours in the list, a tile outside the list has no link, and the count is the
  length of the list.\<close>

fun next_of :: "nat list \<Rightarrow> nat \<Rightarrow> nat option" where
  "next_of [] t = None"
| "next_of [a] t = None"
| "next_of (a # b # xs) t = (if t = a then Some b else next_of (b # xs) t)"

fun previous_of :: "nat list \<Rightarrow> nat \<Rightarrow> nat option" where
  "previous_of [] t = None"
| "previous_of [a] t = None"
| "previous_of (a # b # xs) t = (if t = b then Some a else previous_of (b # xs) t)"

definition queue_of :: "queueWorld \<Rightarrow> nat list \<Rightarrow> bool" where
  "queue_of q xs \<longleftrightarrow>
     distinct xs
     \<and> head q = (case xs of [] \<Rightarrow> None | a # _ \<Rightarrow> Some a)
     \<and> tail q = (if xs = [] then None else Some (last xs))
     \<and> count q = int (length xs)
     \<and> replacementNext q = next_of xs
     \<and> replacementPrevious q = previous_of xs"

text \<open>The order of use after a sequence of marks: the tile marked last first.\<close>

definition recency :: "nat list \<Rightarrow> nat list" where
  "recency ts = foldl (\<lambda>xs t. t # remove1 t xs) [] ts"

text \<open>The tiles of a tree, and the tiles below a tile.\<close>

fun tree_ids :: "tileTree \<Rightarrow> nat set" where
  "tree_ids (TileTree t cs) = insert t (\<Union> (tree_ids ` set cs))"

definition below :: "queueWorld \<Rightarrow> nat \<Rightarrow> nat set" where
  "below q u = \<Union> (tree_ids ` set (children q u))"

text \<open>Following one of the two links from a tile, for a number of steps at most.\<close>

fun walk :: "(nat \<Rightarrow> nat option) \<Rightarrow> nat \<Rightarrow> nat option \<Rightarrow> nat list" where
  "walk link 0 cur = []"
| "walk link (Suc n) None = []"
| "walk link (Suc n) (Some t) = t # walk link n (link t)"

text \<open>Sample tiles: all READY and loaded, without children.\<close>

definition loadedResources :: "nat \<Rightarrow> tileResources" where
  "loadedResources t =
     \<lparr>doneLoading = True, renderable = True, vertexArray = Some t, geometry = Some t,
      transformedGeometry = Some t, imagery = [t]\<rparr>"

definition sampleQueue :: queueWorld where
  "sampleQueue = TileReplacementQueue (\<lambda>t. READY) loadedResources (\<lambda>t. [])"

text \<open>What \<open>freeResources\<close> leaves alone: the queue, the links and the children; and a tile whose
  state and resources are the same in two worlds.\<close>

definition sameQueue :: "queueWorld \<Rightarrow> queueWorld \<Rightarrow> bool" where
  "sameQueue q q' \<longleftrightarrow>
     head q' = head q \<and> tail q' = tail q \<and> count q' = count q
     \<and> lastBeforeStartOfFrame q' = lastBeforeStartOfFrame q
     \<and> replacementNext q' = replacementNext q \<and> replacementPrevious q' = replacementPrevious q
     \<and> children q' = children q"

definition untouched :: "queueWorld \<Rightarrow> queueWorld \<Rightarrow> nat \<Rightarrow> bool" where
  "untouched q q' t \<longleftrightarrow> tileState q' t = tileState q t \<and> resources q' t = resources q t"

text \<open>What a trim keeps, given the tiles from the marker to the tail and those of them that
  stay linked: a tile that is not below one of these keeps its state and resources when it is
  not one of them, and, when it is TRANSITIONING, keeps them and stays linked.\<close>

definition protected :: "queueWorld \<Rightarrow> queueWorld \<Rightarrow> nat list \<Rightarrow> nat list \<Rightarrow> bool" where
  "protected q q' cands ys \<longleftrightarrow>
     (\<forall>t. t \<notin> (\<Union>u\<in>set cands. below q u) \<longrightarrow>
        (t \<notin> set cands \<longrightarrow> untouched q q' t)
        \<and> (tileState q t = TRANSITIONING \<longrightarrow>
             untouched q q' t \<and> (t \<in> set cands \<longrightarrow> t \<in> set ys)))"

text \<open>The resources of a tile after \<open>freeResources\<close>, and a sample queue in the middle of a
  frame: tiles 1 and 2 were marked, the frame started, and tile 3 was marked.\<close>

definition released :: tileResources where
  "released = \<lparr>doneLoading = False, renderable = False, vertexArray = None, geometry = None,
      transformedGeometry = None, imagery = []\<rparr>"

definition frameQueue :: "(nat \<Rightarrow> TileState) \<Rightarrow> (nat \<Rightarrow> tileTree list) \<Rightarrow> queueWorld" where
  "frameQueue st ch =
     \<lparr>head = Some 3, tail = Some 1, count = 3, lastBeforeStartOfFrame = Some 2,
      replacementPrevious = previous_of [3, 2, 1], replacementNext = next_of [3, 2, 1],
      tileState = st, resources = loadedResources, children = ch\<rparr>"

section \<open>Properties of tile construction\<close>

lemma Tile_throws_iff:
  "(\<exists>e. Tile description = Inl e) \<longleftrightarrow>
     (case description of
        None \<Rightarrow> True
      | Some d \<Rightarrow>
          ((d_x d = None \<or> d_y d = None) \<and> d_extent d = None)
          \<or> (\<exists>a b. d_x d = Some a \<and> d_y d = Some b \<and> (a < 0 \<or> b < 0))
          \<or> d_level d = None
          \<or> (\<exists>z. d_zoom d = Some z \<and> z < 0)
          \<or> d_tilingScheme d = None)"
  by (auto simp: Tile_def Let_def split: option.splits)

text \<open>
  Claim C9. The claim has the constructor throw whenever the level is negative. The check
  of the source reads \<open>description.zoom\<close>, not \<open>description.level\<close>, under an error message
  that says the level must be greater than or equal to zero: a description with x = 0, y = 0,
  level = -1, a tiling scheme and no \<open>zoom\<close> constructs a tile of level -1.
\<close>

theorem Tile_negative_level_constructs:
  "Tile (Some \<lparr>d_tilingScheme = Some scheme, d_x = Some 0, d_y = Some 0, d_level = Some (- 1),
               d_zoom = None, d_extent = None, d_parent = None\<rparr>)
   = Inr \<lparr>t_tilingScheme = scheme, t_x = 0, t_y = 0, t_level = - 1, t_parent = None,
          t_extent = tileXYToExtent scheme 0 0 (- 1), t_imagery = [], t_state = UNLOADED\<rparr>"
  by (simp add: Tile_def)

section \<open>Properties of level selection and alignment\<close>



lemma ToInt32_special:
  "ToInt32 (Math_round Infinity) = 0" "ToInt32 (Math_round NegInfinity) = 0"
  "ToInt32 (Math_round NotANumber) = 0" "ToInt32 (Math_round (Double 0)) = 0"
  by (simp_all add: ToInt32_def Math_round_def)



lemma appended_create:
  "fst (createTileImagerySkeletons math layer tile terrain) \<Longrightarrow>
   appended tile (snd (snd (createTileImagerySkeletons math layer tile terrain))) =
     (let scheme = ip_tilingScheme (il_imageryProvider layer);
          e = overlapExtent layer tile;
          lvl = max 0 (min (maxLevel (il_imageryProvider layer))
                  (fst (getLevelWithMaximumTexelSpacing math layer (terrain (t_level tile))
                          (latitudeClosestToEquator e))));
          nw = northwestTileCoordinates scheme e lvl;
          se = southeastTileCoordinates scheme e lvl
      in concat (map (\<lambda>i. map (\<lambda>j. skeleton scheme (extentToNativeExtent scheme (t_extent tile)) lvl i j)
                                          [snd nw .. snd se])
                                [fst nw .. fst se]))"
  by (auto simp: createTileImagerySkeletons_def appended_def Let_def split: if_splits)

lemma skeleton_fields [simp]:
  "level (skeleton scheme te lvl i j) = lvl"
  "x (skeleton scheme te lvl i j) = i"
  "y (skeleton scheme te lvl i j) = j"
  by (simp_all add: skeleton_def TileImagery_def Let_def)


lemma sample_overlap [simp]: "overlapExtent sampleLayer (sampleTile unitExtent) = unitExtent"
  by (simp add: overlapExtent_def sampleLayer_def sampleTile_def intersectWith_def unitExtent_def)

lemma sample_fields:
  "ellipsoid_getMaximumRadius (ip_tilingScheme (il_imageryProvider sampleLayer)) = 1"
  "tileWidth (il_imageryProvider sampleLayer) = 1"
  "numberOfLevelZeroTilesX (ip_tilingScheme (il_imageryProvider sampleLayer)) = 1"
  "ip_tilingScheme (il_imageryProvider sampleLayer) = sampleScheme"
  "ellipsoid_getMaximumRadius sampleScheme = 1" "numberOfLevelZeroTilesX sampleScheme = 1"
  "maxLevel (il_imageryProvider sampleLayer) = 5"
  "ip_extent (il_imageryProvider sampleLayer) = unitExtent"
  "il_extent sampleLayer = unitExtent"
  "t_extent (sampleTile e) = e" "t_imagery (sampleTile e) = []" "t_level (sampleTile e) = 0"
  by (simp_all add: sampleLayer_def sampleScheme_def sampleTile_def)

lemma sampleMath_one:
  "fp_divide sampleMath (Double (2 * pi)) (Double (2 * pi)) = Double 1"
  "fp_log sampleMath (Double 1) = Double 0"
  "fp_log sampleMath (Double 2) = Double (ln 2)"
  "fp_divide sampleMath (Double 0) (Double (ln 2)) = Double 0"
  by (simp_all add: sampleMath_def)


lemma sample_level:
  "getLevelWithMaximumTexelSpacing sampleMath sampleLayer (2 * pi) 0
     = (0, sampleLayer\<lparr>levelZeroMaximumTexelSpacing := Some (2 * pi)\<rparr>)"
  by (simp add: getLevelWithMaximumTexelSpacing_def Let_def sample_fields sampleMath_one
      ToInt32_special)


lemma sample_corners:
  "northwestTileCoordinates sampleScheme unitExtent lvl = (0, 0)"
  "southeastTileCoordinates sampleScheme unitExtent lvl = (0, 0)"
  by (simp_all add: northwestTileCoordinates_def southeastTileCoordinates_def Let_def
      sampleScheme_def unitExtent_def EPSILON10_def)

lemma sample_skeleton:
  "skeleton sampleScheme unitExtent lvl i j = TileImagery i j lvl (0, 0) (1, 1)"
  by (simp add: skeleton_def Let_def sampleScheme_def unitExtent_def)

lemma sample_create_any:
  assumes "getLevelWithMaximumTexelSpacing sampleMath sampleLayer t 0
             = (0, sampleLayer\<lparr>levelZeroMaximumTexelSpacing := Some (2 * pi)\<rparr>)"
  shows "createTileImagerySkeletons sampleMath sampleLayer (sampleTile unitExtent) (\<lambda>lvl. t) =
    (True, sampleLayer\<lparr>levelZeroMaximumTexelSpacing := Some (2 * pi)\<rparr>,
     (sampleTile unitExtent)\<lparr>t_imagery := [TileImagery 0 0 0 (0, 0) (1, 1)]\<rparr>)"
proof -
  have n: "extentToNativeExtent sampleScheme unitExtent = unitExtent"
    by (simp add: sampleScheme_def)
  have l: "latitudeClosestToEquator unitExtent = 0"
    by (simp add: latitudeClosestToEquator_def unitExtent_def)
  have u: "east unitExtent \<le> west unitExtent \<or> north unitExtent \<le> south unitExtent \<longleftrightarrow> False"
    by (simp add: unitExtent_def)
  have one: "1 * t = t" by simp
  show ?thesis
    unfolding createTileImagerySkeletons_def Let_def sample_overlap sample_fields n l u one assms
      sample_corners sample_skeleton
    by (simp add: upto.simps)
qed

lemma sample_create:
  "createTileImagerySkeletons sampleMath sampleLayer (sampleTile unitExtent) (\<lambda>lvl. 2 * pi) =
    (True, sampleLayer\<lparr>levelZeroMaximumTexelSpacing := Some (2 * pi)\<rparr>,
     (sampleTile unitExtent)\<lparr>t_imagery := [TileImagery 0 0 0 (0, 0) (1, 1)]\<rparr>)"
  by (rule sample_create_any[OF sample_level])


lemma sample_appended:
  "appended (sampleTile unitExtent)
     ((sampleTile unitExtent)\<lparr>t_imagery := [TileImagery 0 0 0 (0, 0) (1, 1)]\<rparr>)
   = [TileImagery 0 0 0 (0, 0) (1, 1)]"
  by (simp add: appended_def sampleTile_def)





lemma intersect_scenario:
  "intersectWith (intersectWith \<lparr>west = - 1, south = - 1, east = 1, north = 1\<rparr>
                                \<lparr>west = 0, south = 0, east = 2, north = 2\<rparr>) MAX_VALUE
   = \<lparr>west = 0, south = 0, east = 1, north = 1\<rparr>"
proof -
  have "1 \<le> pi" "1 \<le> pi / 2" using pi_ge_two by simp_all
  then show ?thesis by (simp add: intersectWith_def MAX_VALUE_def)
qed

text \<open>
  Claim C6. Take the intersection of the terrain tile's extent with the imagery source's extent
  and the layer's clip extent: its west and south bounds are the largest of the three west and
  south bounds, its east and north bounds the smallest of the three east and north bounds.
  When it is empty (east \<open>\<le>\<close> west or north \<open>\<le>\<close> south),
  \<open>createTileImagerySkeletons\<close> returns false, leaves layer and tile as they were and appends no
  binding; and it returns true exactly when the extents overlap.
\<close>

theorem createTileImagerySkeletons_overlap:
  assumes "w = max (max (west (t_extent tile)) (west (ip_extent (il_imageryProvider layer))))
                 (west (il_extent layer))"
    and "s = max (max (south (t_extent tile)) (south (ip_extent (il_imageryProvider layer))))
                 (south (il_extent layer))"
    and "e = min (min (east (t_extent tile)) (east (ip_extent (il_imageryProvider layer))))
                 (east (il_extent layer))"
    and "n = min (min (north (t_extent tile)) (north (ip_extent (il_imageryProvider layer))))
                 (north (il_extent layer))"
  shows "(e \<le> w \<or> n \<le> s \<longrightarrow>
            createTileImagerySkeletons math layer tile terrain = (False, layer, tile)
            \<and> appended tile (snd (snd (createTileImagerySkeletons math layer tile terrain))) = [])
       \<and> (fst (createTileImagerySkeletons math layer tile terrain) \<longleftrightarrow> w < e \<and> s < n)"
proof -
  have o: "west (overlapExtent layer tile) = w" "south (overlapExtent layer tile) = s"
    "east (overlapExtent layer tile) = e" "north (overlapExtent layer tile) = n"
    unfolding assms by (simp_all add: overlapExtent_def intersectWith_def)
  show ?thesis
    by (auto simp: createTileImagerySkeletons_def Let_def appended_def o)
qed

theorem createTileImagerySkeletons_overlap_witness:
  "min (min (east (t_extent (sampleTile \<lparr>west = 2, south = 2, east = 3, north = 3\<rparr>)))
            (east (ip_extent (il_imageryProvider sampleLayer)))) (east (il_extent sampleLayer))
     \<le> max (max (west (t_extent (sampleTile \<lparr>west = 2, south = 2, east = 3, north = 3\<rparr>)))
              (west (ip_extent (il_imageryProvider sampleLayer)))) (west (il_extent sampleLayer))
   \<and> createTileImagerySkeletons sampleMath sampleLayer
         (sampleTile \<lparr>west = 2, south = 2, east = 3, north = 3\<rparr>) (\<lambda>lvl. 1)
       = (False, sampleLayer, sampleTile \<lparr>west = 2, south = 2, east = 3, north = 3\<rparr>)
   \<and> appended (sampleTile \<lparr>west = 2, south = 2, east = 3, north = 3\<rparr>)
        (snd (snd (createTileImagerySkeletons sampleMath sampleLayer
           (sampleTile \<lparr>west = 2, south = 2, east = 3, north = 3\<rparr>) (\<lambda>lvl. 1)))) = []
   \<and> fst (createTileImagerySkeletons sampleMath sampleLayer (sampleTile unitExtent) (\<lambda>lvl. 2 * pi))"
proof -
  let ?far = "sampleTile \<lparr>west = 2, south = 2, east = 3, north = 3\<rparr>"
  have e: "min (min (east (t_extent ?far)) (east (ip_extent (il_imageryProvider sampleLayer))))
               (east (il_extent sampleLayer))
     \<le> max (max (west (t_extent ?far)) (west (ip_extent (il_imageryProvider sampleLayer))))
             (west (il_extent sampleLayer))"
    by (simp add: sample_fields unitExtent_def)
  have u: "max (max (west (t_extent (sampleTile unitExtent))) (west (ip_extent (il_imageryProvider sampleLayer))))
               (west (il_extent sampleLayer))
         < min (min (east (t_extent (sampleTile unitExtent))) (east (ip_extent (il_imageryProvider sampleLayer))))
               (east (il_extent sampleLayer))
       \<and> max (max (south (t_extent (sampleTile unitExtent))) (south (ip_extent (il_imageryProvider sampleLayer))))
               (south (il_extent sampleLayer))
         < min (min (north (t_extent (sampleTile unitExtent))) (north (ip_extent (il_imageryProvider sampleLayer))))
               (north (il_extent sampleLayer))"
    by (simp add: sample_fields unitExtent_def)
  show ?thesis
    using createTileImagerySkeletons_overlap[OF refl refl refl refl, of ?far sampleLayer sampleMath "\<lambda>lvl. 1"]
      createTileImagerySkeletons_overlap[OF refl refl refl refl, of "sampleTile unitExtent" sampleLayer
        sampleMath "\<lambda>lvl. 2 * pi"] e u
    by blast
qed

lemma appended_skeleton:
  assumes "fst (createTileImagerySkeletons math layer tile terrain)"
    and "b \<in> set (appended tile (snd (snd (createTileImagerySkeletons math layer tile terrain))))"
  shows "b = skeleton (ip_tilingScheme (il_imageryProvider layer))
               (extentToNativeExtent (ip_tilingScheme (il_imageryProvider layer)) (t_extent tile))
               (level b) (x b) (y b)"
  using assms(2) unfolding appended_create[OF assms(1)] by (auto simp: Let_def)

text \<open>
  Claim C7. Every binding the call appends has the texture translation
  ((imgRect.west - terrainRect.west) / terrainWidth, (imgRect.south - terrainRect.south) /
  terrainHeight) and the texture scale (imgWidth / terrainWidth, imgHeight / terrainHeight),
  over the native rectangles of the imagery tile and of the terrain tile; when the two
  rectangles are equal (and the terrain rectangle has a width and a height other than zero),
  the translation is (0, 0) and the scale is (1, 1).
\<close>

theorem skeleton_texture_alignment:
  assumes "fst (createTileImagerySkeletons math layer tile terrain)"
    and "b \<in> set (appended tile (snd (snd (createTileImagerySkeletons math layer tile terrain))))"
    and "imgRect = tileXYToNativeExtent (ip_tilingScheme (il_imageryProvider layer)) (x b) (y b) (level b)"
    and "terrainRect = extentToNativeExtent (ip_tilingScheme (il_imageryProvider layer)) (t_extent tile)"
    and "terrainWidth = east terrainRect - west terrainRect"
    and "terrainHeight = north terrainRect - south terrainRect"
  shows "textureTranslation b = ((west imgRect - west terrainRect) / terrainWidth,
                                 (south imgRect - south terrainRect) / terrainHeight)
       \<and> textureScale b = ((east imgRect - west imgRect) / terrainWidth,
                            (north imgRect - south imgRect) / terrainHeight)
       \<and> (west imgRect = west terrainRect \<and> south imgRect = south terrainRect
            \<and> east imgRect = east terrainRect \<and> north imgRect = north terrainRect
            \<and> terrainWidth \<noteq> 0 \<and> terrainHeight \<noteq> 0 \<longrightarrow>
              textureTranslation b = (0, 0) \<and> textureScale b = (1, 1))"
proof -
  have "textureTranslation b = ((west imgRect - west terrainRect) / terrainWidth,
                                 (south imgRect - south terrainRect) / terrainHeight)"
    and "textureScale b = ((east imgRect - west imgRect) / terrainWidth,
                            (north imgRect - south imgRect) / terrainHeight)"
    by (subst appended_skeleton[OF assms(1,2)],
        simp add: skeleton_def TileImagery_def Let_def assms(3-6))+
  then show ?thesis using assms(5,6) by auto
qed

theorem skeleton_texture_alignment_witness:
  "fst (createTileImagerySkeletons sampleMath sampleLayer (sampleTile unitExtent) (\<lambda>lvl. 2 * pi))
   \<and> TileImagery 0 0 0 (0, 0) (1, 1) \<in> set (appended (sampleTile unitExtent)
        (snd (snd (createTileImagerySkeletons sampleMath sampleLayer (sampleTile unitExtent)
                     (\<lambda>lvl. 2 * pi)))))
   \<and> tileXYToNativeExtent sampleScheme 0 0 0 = extentToNativeExtent sampleScheme unitExtent
   \<and> east unitExtent - west unitExtent \<noteq> 0 \<and> north unitExtent - south unitExtent \<noteq> 0
   \<and> textureTranslation (TileImagery 0 0 0 (0, 0) (1, 1)) = (0, 0)
   \<and> textureScale (TileImagery 0 0 0 (0, 0) (1, 1)) = (1, 1)"
proof -
  let ?r = "createTileImagerySkeletons sampleMath sampleLayer (sampleTile unitExtent) (\<lambda>lvl. 2 * pi)"
  let ?b = "TileImagery 0 0 0 (0, 0) (1, 1)"
  have h1: "fst ?r" by (simp add: sample_create)
  have h2: "?b \<in> set (appended (sampleTile unitExtent) (snd (snd ?r)))"
    unfolding sample_create by (simp add: sample_appended)
  have n: "tileXYToNativeExtent sampleScheme 0 0 0 = extentToNativeExtent sampleScheme unitExtent"
    by (simp add: sampleScheme_def)
  have w: "east unitExtent - west unitExtent \<noteq> 0" "north unitExtent - south unitExtent \<noteq> 0"
    by (simp_all add: unitExtent_def)
  from skeleton_texture_alignment[OF h1 h2 refl refl refl refl]
  have "textureTranslation ?b = (0, 0) \<and> textureScale ?b = (1, 1)"
    by (simp add: TileImagery_def sampleLayer_def sampleTile_def sampleScheme_def unitExtent_def)
  then show ?thesis using h1 h2 n w by simp
qed

text \<open>
  Claim C8, as amended. The level-zero texel spacing is not computed once: every level
  computation recomputes it from the tile width, the number of level-zero tiles, the
  ellipsoid's maximum radius and the cosine of the latitude it is given, stores that value in
  the layer, and never reads the value stored before (the result is the same whatever was
  stored).
\<close>

theorem levelZeroMaximumTexelSpacing_recomputed:
  "getLevelWithMaximumTexelSpacing math (layer\<lparr>levelZeroMaximumTexelSpacing := stored\<rparr>) texelSpacing lat
     = getLevelWithMaximumTexelSpacing math layer texelSpacing lat
   \<and> levelZeroMaximumTexelSpacing (snd (getLevelWithMaximumTexelSpacing math layer texelSpacing lat))
     = Some (ellipsoid_getMaximumRadius (ip_tilingScheme (il_imageryProvider layer)) * 2 * pi * cos lat
             / (tileWidth (il_imageryProvider layer)
                * numberOfLevelZeroTilesX (ip_tilingScheme (il_imageryProvider layer))))"
  by (simp add: getLevelWithMaximumTexelSpacing_def Let_def)

text \<open>
  Claim C8 as stated fails: on the sample layer a level computation at latitude 0 stores
  2 pi, and the next one, at latitude pi / 3, changes the stored field to pi.
\<close>

theorem levelZeroMaximumTexelSpacing_changes:
  "levelZeroMaximumTexelSpacing (snd (getLevelWithMaximumTexelSpacing sampleMath sampleLayer 1 0))
     = Some (2 * pi)
   \<and> levelZeroMaximumTexelSpacing
       (snd (getLevelWithMaximumTexelSpacing sampleMath
               (snd (getLevelWithMaximumTexelSpacing sampleMath sampleLayer 1 0)) 1 (pi / 3)))
     = Some pi
   \<and> levelZeroMaximumTexelSpacing
       (snd (getLevelWithMaximumTexelSpacing sampleMath
               (snd (getLevelWithMaximumTexelSpacing sampleMath sampleLayer 1 0)) 1 (pi / 3)))
     \<noteq> levelZeroMaximumTexelSpacing (snd (getLevelWithMaximumTexelSpacing sampleMath sampleLayer 1 0))"
  by (simp add: getLevelWithMaximumTexelSpacing_def Let_def sampleLayer_def sampleScheme_def cos_60)

section \<open>Properties of fetch and admission control\<close>

lemma own_name:
  assumes "h \<notin> ObjectPrototype"
  shows "js_get obj h = obj h" and "js_set obj h v = obj(h \<mapsto> v)"
proof -
  show "js_get obj h = obj h" using assms by (simp add: js_get_def split: option.splits)
  have "''__proto__'' \<in> ObjectPrototype" by (simp add: ObjectPrototype_def)
  then have "h \<noteq> ''__proto__''" using assms by blast
  then show "js_set obj h v = obj(h \<mapsto> v)" by (simp add: js_set_def)
qed

lemma js_get_other: "h' \<noteq> h \<Longrightarrow> js_get (js_set obj h' v) h = js_get obj h"
  by (simp add: js_get_def js_set_def)

lemma js_get_same: "h \<notin> ObjectPrototype \<Longrightarrow> js_get (js_set obj h v) h = Some v"
  by (simp add: own_name)

lemma tiles_example_own: "''tiles.example'' \<notin> ObjectPrototype"
  by (simp add: ObjectPrototype_def)

lemma filter_complete:
  "k < length fs \<Longrightarrow>
   length (filter P fs) = length (filter P (complete k fs)) + (if P (fs ! k) then 1 else 0)"
proof -
  assume k: "k < length fs"
  have "fs = take k fs @ fs ! k # drop (Suc k) fs" using k by (rule id_take_nth_drop)
  then have "filter P fs = filter P (take k fs @ fs ! k # drop (Suc k) fs)" by simp
  then show ?thesis by (simp add: complete_def)
qed

lemma fetchesTo_complete:
  "k < length (inFlight s) \<Longrightarrow> inFlight s ! k = (b, h') \<Longrightarrow> inFlight s' = complete k (inFlight s) \<Longrightarrow>
   fetchesTo h s = fetchesTo h s' + (if h' = h then 1 else 0)"
  using filter_complete[of k "inFlight s" "\<lambda>f. snd f = h"] by (simp add: fetchesTo_def)

text \<open>The effect of each event on the counter of a host and on the fetches in flight to it.\<close>

lemma Request_hit:
  "imageryCache (world s) url = Some item \<Longrightarrow>
   activeTileImageRequests (world (step getHostname s (Request b url))) = activeTileImageRequests (world s)
   \<and> inFlight (step getHostname s (Request b url)) = inFlight s"
  by (simp add: requestImagery_resolved_def split: option.splits)

lemma Request_other:
  "imageryCache (world s) url = None \<Longrightarrow> getHostname url \<noteq> h \<Longrightarrow>
   js_get (activeTileImageRequests (world (step getHostname s (Request b url)))) h
     = js_get (activeTileImageRequests (world s)) h
   \<and> fetchesTo h (step getHostname s (Request b url)) = fetchesTo h s"
  by (auto simp: requestImagery_resolved_def issueRequest_def fetchesTo_def Let_def js_get_other)

lemma Request_deferred:
  assumes "imageryCache (world s) url = None" "getHostname url = h" "h \<noteq> []"
    "defaultValue (js_get (activeTileImageRequests (world s)) h) (Num 0) = Num n" "6 < n"
  shows "step getHostname s (Request b url)
          = s\<lparr>world := world s, bindings := (bindings s)(b := (bindings s b)\<lparr>state := UNLOADED\<rparr>),
               inFlight := inFlight s\<rparr>"
  using assms by (simp add: requestImagery_resolved_def Let_def)

lemma Request_issued:
  assumes "imageryCache (world s) url = None" "getHostname url = h" "h \<noteq> []"
    "h \<notin> ObjectPrototype"
    "defaultValue (js_get (activeTileImageRequests (world s)) h) (Num 0) = Num n" "n \<le> 6"
  shows "js_get (activeTileImageRequests (world (step getHostname s (Request b url)))) h = Some (Num (n + 1))"
    and "inFlight (step getHostname s (Request b url)) = inFlight s @ [(b, h)]"
  using assms
  by (simp_all add: requestImagery_resolved_def issueRequest_def Let_def js_get_same)

lemma Fulfil_effect:
  assumes "k < length (inFlight s)" "inFlight s ! k = (b, h')"
  shows "activeTileImageRequests (world (step getHostname s (Fulfil k img)))
           = js_set (activeTileImageRequests (world s)) h'
               (js_decrement (js_get (activeTileImageRequests (world s)) h'))"
    and "inFlight (step getHostname s (Fulfil k img)) = complete k (inFlight s)"
    and "imageryCache (world s) url = None \<Longrightarrow>
           imageryCache (world (step getHostname s (Fulfil k img))) url = None"
  using assms
  by (simp_all add: requestImagery_fulfilled_def Let_def abortAdd_def
      split: response.splits option.splits)

lemma Reject_effect:
  assumes "k < length (inFlight s)" "inFlight s ! k = (b, h')"
  shows "activeTileImageRequests (world (step getHostname s (Reject k)))
           = activeTileImageRequests (world s)"
    and "inFlight (step getHostname s (Reject k)) = complete k (inFlight s)"
  using assms by (simp_all add: requestImagery_rejected_def)

lemma counter_positive:
  "defaultValue (js_get obj h) (Num 0) = Num n \<Longrightarrow> 1 \<le> n \<Longrightarrow> js_get obj h = Some (Num n)"
  by (auto simp: defaultValue_def split: option.splits)

text \<open>The first invariant is kept by every event.\<close>

lemma admitted_start: "h \<notin> ObjectPrototype \<Longrightarrow> admitted h (start cache bs)"
  by (simp add: admitted_def start_def defaultValue_def fetchesTo_def own_name)

lemma admitted_Request:
  assumes "h \<noteq> []" "h \<notin> ObjectPrototype" "admitted h s"
  shows "admitted h (step getHostname s (Request b url))"
proof -
  let ?s' = "step getHostname s (Request b url)"
  from assms(3) obtain n where n:
    "defaultValue (js_get (activeTileImageRequests (world s)) h) (Num 0) = Num n"
    "int (fetchesTo h s) \<le> n" "n \<le> 7" by (auto simp: admitted_def)
  show ?thesis
  proof (cases "imageryCache (world s) url")
    case (Some item)
    have "fetchesTo h ?s' = fetchesTo h s"
      using Request_hit[OF Some, of getHostname b] by (simp add: fetchesTo_def)
    then show ?thesis unfolding admitted_def using Request_hit[OF Some, of getHostname b] n by auto
  next
    case None
    show ?thesis
    proof (cases "getHostname url = h")
      case False
      then show ?thesis unfolding admitted_def using Request_other[where getHostname = getHostname and url = url,
            OF None False, of b] n by auto
    next
      case True
      show ?thesis
      proof (cases "6 < n")
        case full: True
        have "?s' = s\<lparr>world := world s, bindings := (bindings s)(b := (bindings s b)\<lparr>state := UNLOADED\<rparr>),
               inFlight := inFlight s\<rparr>"
          by (rule Request_deferred[where getHostname = getHostname and url = url,
                OF None True assms(1) n(1) full])
        then have "world ?s' = world s" "fetchesTo h ?s' = fetchesTo h s"
          by (simp_all add: fetchesTo_def)
        then show ?thesis unfolding admitted_def using n by auto
      next
        case False
        then have le: "n \<le> 6" by simp
        have c: "js_get (activeTileImageRequests (world ?s')) h = Some (Num (n + 1))"
          by (rule Request_issued(1)[where getHostname = getHostname and url = url,
                OF None True assms(1,2) n(1) le])
        have "inFlight ?s' = inFlight s @ [(b, h)]"
          by (rule Request_issued(2)[where getHostname = getHostname and url = url,
                OF None True assms(1,2) n(1) le])
        then have "fetchesTo h ?s' = fetchesTo h s + 1" by (simp add: fetchesTo_def)
        then show ?thesis unfolding admitted_def c using n(2) le by (simp add: defaultValue_def)
      qed
    qed
  qed
qed

lemma admitted_Fulfil:
  assumes "h \<notin> ObjectPrototype" "admitted h s"
  shows "admitted h (step getHostname s (Fulfil k img))"
proof (cases "k < length (inFlight s)")
  case False
  then show ?thesis using assms(2) by simp
next
  case True
  obtain b h' where f: "inFlight s ! k = (b, h')" by (cases "inFlight s ! k")
  from assms(2) obtain n where n:
    "defaultValue (js_get (activeTileImageRequests (world s)) h) (Num 0) = Num n"
    "int (fetchesTo h s) \<le> n" "n \<le> 7" by (auto simp: admitted_def)
  let ?s' = "step getHostname s (Fulfil k img)"
  note w = Fulfil_effect(1)[OF True f, of getHostname img]
  have fl: "inFlight ?s' = complete k (inFlight s)" by (rule Fulfil_effect(2)[OF True f])
  have cnt: "fetchesTo h s = fetchesTo h ?s' + (if h' = h then 1 else 0)"
    by (rule fetchesTo_complete[OF True f fl])
  show ?thesis
  proof (cases "h' = h")
    case False
    then have "js_get (activeTileImageRequests (world ?s')) h = js_get (activeTileImageRequests (world s)) h"
      unfolding w by (rule js_get_other)
    then show ?thesis using n cnt False by (auto simp: admitted_def)
  next
    case same: True
    have pos: "1 \<le> n" using cnt same n(2) by simp
    have "js_get (activeTileImageRequests (world s)) h = Some (Num n)"
      by (rule counter_positive[OF n(1) pos])
    then have "js_get (activeTileImageRequests (world ?s')) h = Some (Num (n - 1))"
      unfolding w same by (simp add: js_get_same[OF assms(1)] js_decrement_def)
    then show ?thesis using n cnt same by (auto simp: admitted_def defaultValue_def)
  qed
qed

lemma admitted_Reject:
  assumes "admitted h s"
  shows "admitted h (step getHostname s (Reject k))"
proof (cases "k < length (inFlight s)")
  case False
  then show ?thesis using assms by simp
next
  case True
  obtain b h' where f: "inFlight s ! k = (b, h')" by (cases "inFlight s ! k")
  let ?s' = "step getHostname s (Reject k)"
  have fl: "inFlight ?s' = complete k (inFlight s)" by (rule Reject_effect(2)[OF True f])
  have cnt: "fetchesTo h s = fetchesTo h ?s' + (if h' = h then 1 else 0)"
    by (rule fetchesTo_complete[OF True f fl])
  have w: "activeTileImageRequests (world ?s') = activeTileImageRequests (world s)"
    by (rule Reject_effect(1)[OF True f])
  from assms obtain n where n:
    "defaultValue (js_get (activeTileImageRequests (world s)) h) (Num 0) = Num n"
    "int (fetchesTo h s) \<le> n" "n \<le> 7" by (auto simp: admitted_def)
  have "int (fetchesTo h ?s') \<le> n" using n(2) cnt by simp
  then show ?thesis unfolding admitted_def w using n(1,3) by blast
qed

lemma admitted_step:
  "h \<noteq> [] \<Longrightarrow> h \<notin> ObjectPrototype \<Longrightarrow> admitted h s \<Longrightarrow> admitted h (step getHostname s ev)"
  by (cases ev) (blast intro: admitted_Request admitted_Fulfil admitted_Reject)+

lemma admitted_run:
  "h \<noteq> [] \<Longrightarrow> h \<notin> ObjectPrototype \<Longrightarrow> admitted h s \<Longrightarrow> admitted h (run getHostname s evs)"
  unfolding run_def by (induction evs arbitrary: s) (simp_all add: admitted_step)

lemma fetchesTo_bound:
  "h \<noteq> [] \<Longrightarrow> h \<notin> ObjectPrototype \<Longrightarrow> fetchesTo h (run getHostname (start cache bs) evs) \<le> 7"
  using admitted_run[OF _ _ admitted_start, of h getHostname cache bs evs]
  by (auto simp: admitted_def)

text \<open>The second invariant is kept by a request and by a fetch that completes with a
  response.\<close>

lemma counted_start: "h \<notin> ObjectPrototype \<Longrightarrow> counted h (start cache bs)"
  by (simp add: counted_def start_def defaultValue_def fetchesTo_def own_name)

lemma counted_Request:
  assumes "h \<noteq> []" "h \<notin> ObjectPrototype" "counted h s"
  shows "counted h (step getHostname s (Request b url))"
proof -
  let ?s' = "step getHostname s (Request b url)"
  let ?n = "int (fetchesTo h s)"
  have n: "defaultValue (js_get (activeTileImageRequests (world s)) h) (Num 0) = Num ?n"
    using assms(3) by (simp add: counted_def)
  show ?thesis
  proof (cases "imageryCache (world s) url")
    case (Some item)
    have "fetchesTo h ?s' = fetchesTo h s"
      using Request_hit[OF Some, of getHostname b] by (simp add: fetchesTo_def)
    then show ?thesis unfolding counted_def using Request_hit[OF Some, of getHostname b] n by simp
  next
    case None
    show ?thesis
    proof (cases "getHostname url = h")
      case False
      then show ?thesis unfolding counted_def using Request_other[where getHostname = getHostname and url = url,
            OF None False, of b] n by simp
    next
      case True
      show ?thesis
      proof (cases "6 < ?n")
        case full: True
        have "?s' = s\<lparr>world := world s, bindings := (bindings s)(b := (bindings s b)\<lparr>state := UNLOADED\<rparr>),
               inFlight := inFlight s\<rparr>"
          by (rule Request_deferred[where getHostname = getHostname and url = url,
                OF None True assms(1) n full])
        then have "world ?s' = world s" "fetchesTo h ?s' = fetchesTo h s"
          by (simp_all add: fetchesTo_def)
        then show ?thesis unfolding counted_def using n by simp
      next
        case False
        then have le: "?n \<le> 6" by simp
        have c: "js_get (activeTileImageRequests (world ?s')) h = Some (Num (?n + 1))"
          by (rule Request_issued(1)[where getHostname = getHostname and url = url,
                OF None True assms(1,2) n le])
        have "inFlight ?s' = inFlight s @ [(b, h)]"
          by (rule Request_issued(2)[where getHostname = getHostname and url = url,
                OF None True assms(1,2) n le])
        then have "fetchesTo h ?s' = fetchesTo h s + 1" by (simp add: fetchesTo_def)
        then show ?thesis unfolding counted_def c by (simp add: defaultValue_def)
      qed
    qed
  qed
qed

lemma counted_Fulfil:
  assumes "h \<notin> ObjectPrototype" "counted h s"
  shows "counted h (step getHostname s (Fulfil k img))"
proof (cases "k < length (inFlight s)")
  case False
  then show ?thesis using assms(2) by simp
next
  case True
  obtain b h' where f: "inFlight s ! k = (b, h')" by (cases "inFlight s ! k")
  let ?n = "int (fetchesTo h s)"
  have n: "defaultValue (js_get (activeTileImageRequests (world s)) h) (Num 0) = Num ?n"
    using assms(2) by (simp add: counted_def)
  let ?s' = "step getHostname s (Fulfil k img)"
  note w = Fulfil_effect(1)[OF True f, of getHostname img]
  have fl: "inFlight ?s' = complete k (inFlight s)" by (rule Fulfil_effect(2)[OF True f])
  have cnt: "fetchesTo h s = fetchesTo h ?s' + (if h' = h then 1 else 0)"
    by (rule fetchesTo_complete[OF True f fl])
  show ?thesis
  proof (cases "h' = h")
    case False
    then have "js_get (activeTileImageRequests (world ?s')) h = js_get (activeTileImageRequests (world s)) h"
      unfolding w by (rule js_get_other)
    then show ?thesis using n cnt False by (simp add: counted_def)
  next
    case same: True
    have pos: "1 \<le> ?n" using cnt same by simp
    have "js_get (activeTileImageRequests (world s)) h = Some (Num ?n)"
      by (rule counter_positive[OF n pos])
    then have "js_get (activeTileImageRequests (world ?s')) h = Some (Num (?n - 1))"
      unfolding w same by (simp add: js_get_same[OF assms(1)] js_decrement_def)
    then show ?thesis using cnt same by (simp add: counted_def defaultValue_def)
  qed
qed

lemma counted_run:
  "h \<noteq> [] \<Longrightarrow> h \<notin> ObjectPrototype \<Longrightarrow> noFailure evs \<Longrightarrow> counted h s
   \<Longrightarrow> counted h (run getHostname s evs)"
proof (induction evs arbitrary: s)
  case Nil
  then show ?case by (simp add: run_def)
next
  case (Cons ev evs)
  have r: "run getHostname s (ev # evs) = run getHostname (step getHostname s ev) evs"
    by (simp add: run_def)
  show ?case
  proof (cases ev)
    case (Request b url)
    have "noFailure evs" using Cons.prems(3) Request by simp
    moreover have "counted h (step getHostname s ev)"
      unfolding Request by (rule counted_Request[OF Cons.prems(1,2,4)])
    ultimately show ?thesis unfolding r by (rule Cons.IH[OF Cons.prems(1,2)])
  next
    case (Fulfil k img)
    have "noFailure evs" using Cons.prems(3) Fulfil by simp
    moreover have "counted h (step getHostname s ev)"
      unfolding Fulfil by (rule counted_Fulfil[OF Cons.prems(2,4)])
    ultimately show ?thesis unfolding r by (rule Cons.IH[OF Cons.prems(1,2)])
  next
    case (Reject k)
    then show ?thesis using Cons.prems(3) by simp
  qed
qed

lemma deferred_when_full:
  assumes "h \<noteq> []" "admitted h s" "7 \<le> fetchesTo h s"
    "imageryCache (world s) url = None" "getHostname url = h"
  shows "step getHostname s (Request b url)
          = s\<lparr>world := world s, bindings := (bindings s)(b := (bindings s b)\<lparr>state := UNLOADED\<rparr>),
               inFlight := inFlight s\<rparr>"
proof -
  from assms(2,3) have "defaultValue (js_get (activeTileImageRequests (world s)) h) (Num 0) = Num 7"
    by (auto simp: admitted_def)
  then show ?thesis by (rule Request_deferred[where getHostname = getHostname and url = url,
        OF assms(4,5,1)]) simp
qed

lemma issued_when_counted:
  assumes "h \<noteq> []" "h \<notin> ObjectPrototype" "counted h s" "fetchesTo h s < 7"
    "imageryCache (world s) url = None" "getHostname url = h"
  shows "inFlight (step getHostname s (Request b url)) = inFlight s @ [(b, h)]"
proof -
  have n:
    "defaultValue (js_get (activeTileImageRequests (world s)) h) (Num 0) = Num (int (fetchesTo h s))"
    using assms(3) by (simp add: counted_def)
  have le: "int (fetchesTo h s) \<le> 6" using assms(4) by simp
  show ?thesis by (rule Request_issued(2)[where getHostname = getHostname and url = url,
        OF assms(5,6,1,2) n le])
qed

lemma issued_after_fulfil:
  assumes "h \<noteq> []" "h \<notin> ObjectPrototype" "admitted h s"
    "k < length (inFlight s)" "snd (inFlight s ! k) = h"
    "imageryCache (world s) url = None" "getHostname url = h"
  shows "inFlight (step getHostname (step getHostname s (Fulfil k img)) (Request b url))
          = complete k (inFlight s) @ [(b, h)]"
proof -
  obtain b' where f: "inFlight s ! k = (b', h)" using assms(5) by (cases "inFlight s ! k") auto
  from assms(3) obtain n where n:
    "defaultValue (js_get (activeTileImageRequests (world s)) h) (Num 0) = Num n"
    "int (fetchesTo h s) \<le> n" "n \<le> 7" by (auto simp: admitted_def)
  let ?s' = "step getHostname s (Fulfil k img)"
  note w = Fulfil_effect(1)[OF assms(4) f, of getHostname img]
  have fl: "inFlight ?s' = complete k (inFlight s)" by (rule Fulfil_effect(2)[OF assms(4) f])
  have "fetchesTo h s = fetchesTo h ?s' + 1"
    using fetchesTo_complete[OF assms(4) f fl, of h] by simp
  then have pos: "1 \<le> n" using n(2) by simp
  have "js_get (activeTileImageRequests (world s)) h = Some (Num n)"
    by (rule counter_positive[OF n(1) pos])
  then have "js_get (activeTileImageRequests (world ?s')) h = Some (Num (n - 1))"
    unfolding w by (simp add: js_get_same[OF assms(2)] js_decrement_def)
  then have c: "defaultValue (js_get (activeTileImageRequests (world ?s')) h) (Num 0) = Num (n - 1)"
    by (simp add: defaultValue_def)
  have m: "imageryCache (world ?s') url = None" by (rule Fulfil_effect(3)[OF assms(4) f assms(6)])
  have le: "n - 1 \<le> 6" using n(3) by simp
  show ?thesis unfolding fl[symmetric] by (rule Request_issued(2)[where getHostname = getHostname and url = url,
        OF m assms(7,1,2) c le])
qed

text \<open>
  Claim C1, as amended. Take a host whose name is not empty and is not the name of a property
  that every object inherits (\<open>constructor\<close>, \<open>toString\<close>, ...). For every sequence of
  \<open>requestImagery\<close> calls and completions, at most 7 fetches to the host are in flight at
  once. With 7 in flight, a further attempt to that host whose URL misses the cache is
  postponed: its binding's state is set to UNLOADED and nothing else changes (no counter, no
  cache entry, nothing queued). With fewer than 7 in flight, and no fetch having failed so far,
  such an attempt is issued; and so is one made right after any fetch to that host has
  completed with a response (an image or none).
\<close>

theorem admission_control:
  assumes "h \<noteq> []" and "h \<notin> ObjectPrototype"
    and "s = run getHostname (start cache bs) evs"
    and "imageryCache (world s) url = None" and "getHostname url = h"
  shows "fetchesTo h s \<le> 7
       \<and> (7 \<le> fetchesTo h s \<longrightarrow>
            step getHostname s (Request b url)
              = s\<lparr>world := world s, bindings := (bindings s)(b := (bindings s b)\<lparr>state := UNLOADED\<rparr>),
                   inFlight := inFlight s\<rparr>)
       \<and> (noFailure evs \<and> fetchesTo h s < 7 \<longrightarrow>
            inFlight (step getHostname s (Request b url)) = inFlight s @ [(b, h)])
       \<and> (k < length (inFlight s) \<and> snd (inFlight s ! k) = h \<longrightarrow>
            inFlight (step getHostname (step getHostname s (Fulfil k img)) (Request b url))
              = complete k (inFlight s) @ [(b, h)])"
proof -
  have a: "admitted h s"
    unfolding assms(3) by (rule admitted_run[OF assms(1,2) admitted_start[OF assms(2)]])
  have 1: "fetchesTo h s \<le> 7" unfolding assms(3) by (rule fetchesTo_bound[OF assms(1,2)])
  have 2: "step getHostname s (Request b url)
              = s\<lparr>world := world s, bindings := (bindings s)(b := (bindings s b)\<lparr>state := UNLOADED\<rparr>),
                   inFlight := inFlight s\<rparr>" if "7 \<le> fetchesTo h s"
    by (rule deferred_when_full[where getHostname = getHostname and url = url,
          OF assms(1) a that assms(4,5)])
  have 3: "inFlight (step getHostname s (Request b url)) = inFlight s @ [(b, h)]"
    if "noFailure evs" "fetchesTo h s < 7"
  proof -
    have c: "counted h s"
      unfolding assms(3) by (rule counted_run[OF assms(1,2) that(1) counted_start[OF assms(2)]])
    show ?thesis
      by (rule issued_when_counted[where getHostname = getHostname and url = url,
            OF assms(1,2) c that(2) assms(4,5)])
  qed
  have 4: "inFlight (step getHostname (step getHostname s (Fulfil k img)) (Request b url))
              = complete k (inFlight s) @ [(b, h)]"
    if "k < length (inFlight s)" "snd (inFlight s ! k) = h"
    by (rule issued_after_fulfil[where getHostname = getHostname and url = url,
          OF assms(1,2) a that assms(4,5)])
  show ?thesis using 1 2 3 4 by blast
qed

lemma run_Cons: "run getHostname s (ev # evs) = run getHostname (step getHostname s ev) evs"
  by (simp add: run_def)

lemma run_Nil: "run getHostname s [] = s"
  by (simp add: run_def)

lemma seven_issued:
  "run oneHost (start Map.empty newBindings) sevenRequests
   = \<lparr>world = \<lparr>activeTileImageRequests = [''tiles.example'' \<mapsto> Num 7],
               imageryCache =
                [''a/1'' \<mapsto> \<lparr>ci_texture = None\<rparr>, ''a/2'' \<mapsto> \<lparr>ci_texture = None\<rparr>,
                 ''a/3'' \<mapsto> \<lparr>ci_texture = None\<rparr>, ''a/4'' \<mapsto> \<lparr>ci_texture = None\<rparr>,
                 ''a/5'' \<mapsto> \<lparr>ci_texture = None\<rparr>, ''a/6'' \<mapsto> \<lparr>ci_texture = None\<rparr>,
                 ''a/7'' \<mapsto> \<lparr>ci_texture = None\<rparr>]\<rparr>,
      bindings = newBindings
        (1 := (newBindings 1)\<lparr>imageUrl := Some ''a/1''\<rparr>, 2 := (newBindings 2)\<lparr>imageUrl := Some ''a/2''\<rparr>,
         3 := (newBindings 3)\<lparr>imageUrl := Some ''a/3''\<rparr>, 4 := (newBindings 4)\<lparr>imageUrl := Some ''a/4''\<rparr>,
         5 := (newBindings 5)\<lparr>imageUrl := Some ''a/5''\<rparr>, 6 := (newBindings 6)\<lparr>imageUrl := Some ''a/6''\<rparr>,
         7 := (newBindings 7)\<lparr>imageUrl := Some ''a/7''\<rparr>),
      inFlight = [(1, ''tiles.example''), (2, ''tiles.example''), (3, ''tiles.example''),
                  (4, ''tiles.example''), (5, ''tiles.example''), (6, ''tiles.example''),
                  (7, ''tiles.example'')]\<rparr>"
  by (simp add: sevenRequests_def run_Cons run_Nil start_def requestImagery_resolved_def
      issueRequest_def beginAdd_def defaultValue_def oneHost_def Let_def
      own_name[OF tiles_example_own])

text \<open>
  Claim C1 as stated fails: of seven attempts to one host, with seven different URLs and
  nothing in flight before, all seven are issued, the seventh included, and seven fetches are
  in flight at once.
\<close>

theorem seven_in_flight:
  "fetchesTo ''tiles.example'' (run oneHost (start Map.empty newBindings) sevenRequests) = 7
   \<and> imageUrl (bindings (run oneHost (start Map.empty newBindings) sevenRequests) 7) = Some ''a/7''
   \<and> (7, ''tiles.example'') \<in> set (inFlight (run oneHost (start Map.empty newBindings) sevenRequests))"
  unfolding seven_issued by (simp add: fetchesTo_def)

theorem admission_control_witness:
  "''tiles.example'' \<noteq> [] \<and> ''tiles.example'' \<notin> ObjectPrototype
   \<and> imageryCache (world (run oneHost (start Map.empty newBindings) sevenRequests)) ''a/8'' = None
   \<and> oneHost ''a/8'' = ''tiles.example''
   \<and> 7 \<le> fetchesTo ''tiles.example'' (run oneHost (start Map.empty newBindings) sevenRequests)
   \<and> fetchesTo ''tiles.example'' (run oneHost (start Map.empty newBindings) sevenRequests) \<le> 7
   \<and> step oneHost (run oneHost (start Map.empty newBindings) sevenRequests) (Request 8 ''a/8'')
       = (run oneHost (start Map.empty newBindings) sevenRequests)
           \<lparr>world := world (run oneHost (start Map.empty newBindings) sevenRequests),
            bindings := (bindings (run oneHost (start Map.empty newBindings) sevenRequests))
               (8 := (bindings (run oneHost (start Map.empty newBindings) sevenRequests) 8)\<lparr>state := UNLOADED\<rparr>),
            inFlight := inFlight (run oneHost (start Map.empty newBindings) sevenRequests)\<rparr>
   \<and> inFlight (step oneHost (step oneHost (run oneHost (start Map.empty newBindings) sevenRequests)
                    (Fulfil 0 (Image 1))) (Request 8 ''a/8''))
       = [(2, ''tiles.example''), (3, ''tiles.example''), (4, ''tiles.example''),
          (5, ''tiles.example''), (6, ''tiles.example''), (7, ''tiles.example''),
          (8, ''tiles.example'')]
   \<and> noFailure [Request 1 ''a/1''] \<and> imageryCache (world (run oneHost (start Map.empty newBindings) [Request 1 ''a/1''])) ''a/8'' = None
   \<and> fetchesTo ''tiles.example'' (run oneHost (start Map.empty newBindings) [Request 1 ''a/1'']) < 7
   \<and> inFlight (step oneHost (run oneHost (start Map.empty newBindings) [Request 1 ''a/1''])
                 (Request 8 ''a/8''))
       = [(1, ''tiles.example''), (8, ''tiles.example'')]"
proof -
  let ?s = "run oneHost (start Map.empty newBindings) sevenRequests"
  let ?t = "run oneHost (start Map.empty newBindings) [Request 1 ''a/1'']"
  have h1: "''tiles.example'' \<noteq> []" by simp
  have h3: "imageryCache (world ?s) ''a/8'' = None" unfolding seven_issued by simp
  have h4: "oneHost ''a/8'' = ''tiles.example''" by (simp add: oneHost_def)
  have n:
    "7 \<le> fetchesTo ''tiles.example'' ?s" unfolding seven_issued by (simp add: fetchesTo_def)
  have k: "0 < length (inFlight ?s) \<and> snd (inFlight ?s ! 0) = ''tiles.example''"
    unfolding seven_issued by simp
  have c: "complete 0 (inFlight ?s) @ [(8, ''tiles.example'')]
       = [(2, ''tiles.example''), (3, ''tiles.example''), (4, ''tiles.example''),
          (5, ''tiles.example''), (6, ''tiles.example''), (7, ''tiles.example''),
          (8, ''tiles.example'')]"
    unfolding seven_issued by (simp add: complete_def)
  have t: "?t = \<lparr>world = \<lparr>activeTileImageRequests = [''tiles.example'' \<mapsto> Num 1],
                         imageryCache = [''a/1'' \<mapsto> \<lparr>ci_texture = None\<rparr>]\<rparr>,
                 bindings = newBindings(1 := (newBindings 1)\<lparr>imageUrl := Some ''a/1''\<rparr>),
                 inFlight = [(1, ''tiles.example'')]\<rparr>"
    by (simp add: run_Cons run_Nil start_def requestImagery_resolved_def
        issueRequest_def beginAdd_def defaultValue_def oneHost_def Let_def
        own_name[OF tiles_example_own])
  have g1: "noFailure [Request 1 ''a/1'']" by simp
  have g3: "imageryCache (world ?t) ''a/8'' = None" unfolding t by simp
  have g4: "fetchesTo ''tiles.example'' ?t < 7" unfolding t by (simp add: fetchesTo_def)
  have d: "inFlight ?t @ [(8, ''tiles.example'')] = [(1, ''tiles.example''), (8, ''tiles.example'')]"
    unfolding t by simp
  note inst = admission_control[OF h1 tiles_example_own refl h3 h4, of 8 0 "Image 1"]
  note inst2 = admission_control[OF h1 tiles_example_own refl g3 h4, of 8 0 "Image 1"]
  have A: "fetchesTo ''tiles.example'' ?s \<le> 7" by (rule conjunct1[OF inst])
  have B: "step oneHost ?s (Request 8 ''a/8'')
       = ?s\<lparr>world := world ?s,
            bindings := (bindings ?s)(8 := (bindings ?s 8)\<lparr>state := UNLOADED\<rparr>),
            inFlight := inFlight ?s\<rparr>"
    by (rule mp[OF conjunct1[OF conjunct2[OF inst]] n])
  have C: "inFlight (step oneHost (step oneHost ?s (Fulfil 0 (Image 1))) (Request 8 ''a/8''))
       = complete 0 (inFlight ?s) @ [(8, ''tiles.example'')]"
    by (rule mp[OF conjunct2[OF conjunct2[OF conjunct2[OF inst]]] k])
  have D: "inFlight (step oneHost ?t (Request 8 ''a/8'')) = inFlight ?t @ [(8, ''tiles.example'')]"
    by (rule mp[OF conjunct1[OF conjunct2[OF conjunct2[OF inst2]]] conjI[OF g1 g4]])
  show ?thesis
    by (intro conjI) (rule h1 tiles_example_own h3 h4 n A B C[unfolded c] g1 g3 g4 D[unfolded d])+
qed

text \<open>A host named like an inherited property is never postponed: the first read of its
  counter finds the inherited function, which is not greater than 6, and what \<open>+ 1\<close> makes of
  it and stores is a text; nine requests with nine URLs are all issued and in flight at
  once.\<close>

lemma inherited_name_not_capped:
  "fetchesTo ''constructor'' (run constructorHost (start Map.empty newBindings) nineRequests) = 9
   \<and> activeTileImageRequests (world (run constructorHost (start Map.empty newBindings) nineRequests))
       ''constructor'' = Some Text"
  by (simp add: nineRequests_def run_Cons run_Nil start_def requestImagery_resolved_def
      issueRequest_def beginAdd_def defaultValue_def constructorHost_def Let_def fetchesTo_def
      js_get_def js_set_def ObjectPrototype_def)

text \<open>After a failed fetch the counter is above the number of fetches in flight, and a request
  can be postponed with fewer than 7 in flight: after seven requests to a host and the failure
  of the first of the seven fetches, six are in flight and an eighth request is postponed.\<close>

lemma postponed_after_failure:
  "fetchesTo ''tiles.example''
     (run oneHost (run oneHost (start Map.empty newBindings) sevenRequests) [Reject 0]) = 6
   \<and> inFlight (run oneHost (run oneHost (start Map.empty newBindings) sevenRequests)
                [Reject 0, Request 8 ''a/8''])
     = inFlight (run oneHost (run oneHost (start Map.empty newBindings) sevenRequests) [Reject 0])
   \<and> state (bindings (run oneHost (run oneHost (start Map.empty newBindings) sevenRequests)
                [Reject 0, Request 8 ''a/8'']) 8) = UNLOADED"
  unfolding seven_issued
  by (simp add: run_Cons run_Nil requestImagery_resolved_def requestImagery_rejected_def
      abortAdd_def defaultValue_def oneHost_def complete_def Let_def fetchesTo_def
      own_name[OF tiles_example_own])

lemma requestImagery_fulfilled_effect:
  "activeTileImageRequests (fst (requestImagery_fulfilled h img w ti))
     = js_set (activeTileImageRequests w) h (js_decrement (js_get (activeTileImageRequests w) h))"
  "state (snd (requestImagery_fulfilled h (Image i) w ti)) = RECEIVED"
  "image (snd (requestImagery_fulfilled h (Image i) w ti)) = Some i"
  "imageryCache (fst (requestImagery_fulfilled h (Image i) w ti)) = imageryCache w"
  "state (snd (requestImagery_fulfilled h NoImage w ti)) = INVALID"
  "imageUrl ti = Some url \<Longrightarrow> imageryCache (fst (requestImagery_fulfilled h NoImage w ti)) url = None"
  by (simp_all add: requestImagery_fulfilled_def Let_def abortAdd_def split: response.splits)

lemma js_decrement_Num: "js_decrement (Some (Num n)) = Num (n - 1)"
  by (simp add: js_decrement_def)

lemma requestImagery_rejected_effect:
  "activeTileImageRequests (fst (requestImagery_rejected w ti)) = activeTileImageRequests w"
  "state (snd (requestImagery_rejected w ti)) = FAILED"
  "imageUrl ti = Some url \<Longrightarrow> imageryCache (fst (requestImagery_rejected w ti)) url = None"
  by (simp_all add: requestImagery_rejected_def abortAdd_def)

text \<open>
  Claim C2. The claim has the host's counter decremented when an issued fetch fails. The
  rejection callback of the source does not touch the counter (the success callback does):
  after one request to a host the counter is 1, and after that fetch has failed, with nothing
  in flight any more, the counter is still 1. The binding is FAILED and the pending cache
  entry is removed, as the claim says.
\<close>

theorem rejected_fetch_keeps_counter:
  "activeTileImageRequests
      (world (run oneHost (start Map.empty newBindings) [Request 1 ''a/1''])) ''tiles.example''
     = Some (Num 1)
   \<and> inFlight (run oneHost (start Map.empty newBindings) [Request 1 ''a/1'']) = [(1, ''tiles.example'')]
   \<and> inFlight (run oneHost (start Map.empty newBindings) [Request 1 ''a/1'', Reject 0]) = []
   \<and> activeTileImageRequests
      (world (run oneHost (start Map.empty newBindings) [Request 1 ''a/1'', Reject 0])) ''tiles.example''
     = Some (Num 1)
   \<and> state (bindings (run oneHost (start Map.empty newBindings) [Request 1 ''a/1'', Reject 0]) 1) = FAILED
   \<and> imageryCache (world (run oneHost (start Map.empty newBindings) [Request 1 ''a/1'', Reject 0])) ''a/1''
     = None"
  by (simp add: run_Cons run_Nil start_def requestImagery_resolved_def requestImagery_rejected_def
      issueRequest_def beginAdd_def abortAdd_def defaultValue_def oneHost_def complete_def Let_def
      own_name[OF tiles_example_own])

lemma empty_hostname_issued:
  "imageryCache w url = None \<Longrightarrow> getHostname url = [] \<Longrightarrow>
   requestImagery_resolved getHostname url w ti
     = (w\<lparr>imageryCache := beginAdd url (imageryCache w)\<rparr>, ti\<lparr>imageUrl := Some url\<rparr>, Some [])"
  by (simp add: requestImagery_resolved_def issueRequest_def)

text \<open>
  Claim C10. The claim has no counter read, incremented or decremented for a URL whose
  hostname is empty. The first callback leaves the counters alone and issues the fetch, but
  the success callback runs its decrement without the guard on the hostname: after the fetch
  has completed with an image, the object holds the entry NaN under the empty hostname.
\<close>

theorem empty_hostname_decrement:
  "activeTileImageRequests (world (run noHost (start Map.empty newBindings) [Request 1 ''a/1'']))
     = Map.empty
   \<and> inFlight (run noHost (start Map.empty newBindings) [Request 1 ''a/1'']) = [(1, [])]
   \<and> activeTileImageRequests
       (world (run noHost (start Map.empty newBindings) [Request 1 ''a/1'', Fulfil 0 (Image 5)])) []
     = Some NaN"
  by (simp add: run_Cons run_Nil start_def requestImagery_resolved_def requestImagery_fulfilled_def
      issueRequest_def beginAdd_def js_decrement_def noHost_def complete_def Let_def
      js_get_def js_set_def ObjectPrototype_def)

section \<open>Properties of the tile replacement queue\<close>

lemma next_of_notin [simp]: "t \<notin> set xs \<Longrightarrow> next_of xs t = None"
  by (induction xs t rule: next_of.induct) auto

lemma previous_of_notin [simp]: "t \<notin> set xs \<Longrightarrow> previous_of xs t = None"
  by (induction xs t rule: previous_of.induct) auto

lemma next_of_Cons:
  "next_of (a # xs) t = (if t = a then (case xs of [] \<Rightarrow> None | b # _ \<Rightarrow> Some b) else next_of xs t)"
  by (cases xs) auto

lemma previous_of_hd [simp]: "distinct (a # xs) \<Longrightarrow> previous_of (a # xs) a = None"
  by (induction "a # xs" a arbitrary: xs rule: previous_of.induct) auto

lemma previous_of_Cons:
  "distinct (a # xs) \<Longrightarrow>
   previous_of (a # xs) t = (if t = a then None else if xs \<noteq> [] \<and> t = hd xs then Some a else previous_of xs t)"
  by (cases xs) auto

lemma previous_of_None_iff:
  "distinct xs \<Longrightarrow> t \<in> set xs \<Longrightarrow> previous_of xs t = None \<longleftrightarrow> t = hd xs"
  by (induction xs t rule: previous_of.induct) auto

lemma next_of_None_iff:
  "distinct xs \<Longrightarrow> t \<in> set xs \<Longrightarrow> next_of xs t = None \<longleftrightarrow> t = last xs"
  by (induction xs t rule: next_of.induct) auto

lemma previous_of_Some: "previous_of xs t = Some p \<Longrightarrow> p \<in> set xs \<and> t \<in> set xs"
  by (induction xs t rule: previous_of.induct) (auto split: if_splits)

lemma next_of_Some: "next_of xs t = Some n \<Longrightarrow> n \<in> set xs \<and> t \<in> set xs"
  by (induction xs t rule: next_of.induct) (auto split: if_splits)

lemma next_of_not_hd: "distinct (b # xs) \<Longrightarrow> next_of (b # xs) p \<noteq> Some b"
  by (cases xs) (auto dest: next_of_Some)

lemma next_previous:
  "distinct xs \<Longrightarrow> previous_of xs t = Some p \<longleftrightarrow> next_of xs p = Some t"
proof (induction xs t rule: previous_of.induct)
  case (3 a b xs t)
  then show ?case
    using next_of_not_hd[of b xs p] by (auto dest: next_of_Some previous_of_Some)
qed auto

lemma next_of_remove1:
  "distinct xs \<Longrightarrow> u \<in> set xs \<Longrightarrow>
   next_of (remove1 u xs) =
     (case previous_of xs u of
        None \<Rightarrow> (next_of xs)(u := None)
      | Some p \<Rightarrow> (next_of xs)(p := next_of xs u, u := None))"
proof (induction xs u rule: previous_of.induct)
  case (1 t)
  then show ?case by simp
next
  case (2 a t)
  then show ?case by (auto simp: fun_eq_iff)
next
  case (3 a b xs t)
  show ?case
  proof (cases "t = a")
    case True
    then show ?thesis using 3(2) by (auto simp: fun_eq_iff next_of_Cons split: list.splits)
  next
    case False
    note ta = this
    show ?thesis
    proof (cases "t = b")
      case True
      then show ?thesis using 3(2) by (auto simp: fun_eq_iff next_of_Cons split: list.splits)
    next
      case False
      then have ih: "next_of (remove1 t (b # xs)) =
         (case previous_of (b # xs) t of
            None \<Rightarrow> (next_of (b # xs))(t := None)
          | Some p \<Rightarrow> (next_of (b # xs))(p := next_of (b # xs) t, t := None))"
        using 3 ta by auto
      have pn: "previous_of (b # xs) t \<noteq> None"
        using False ta 3(2,3) previous_of_None_iff[of "b # xs" t] by auto
      then obtain p where p: "previous_of (b # xs) t = Some p" by auto
      have "next_of (remove1 t (a # b # xs)) = next_of (a # remove1 t (b # xs))"
        using ta by simp
      also have "remove1 t (b # xs) = b # remove1 t xs" using False by simp
      finally have e: "next_of (remove1 t (a # b # xs)) = next_of (a # b # remove1 t xs)" .
      have pa: "p \<noteq> a" using previous_of_Some[OF p] 3(2) by auto
      show ?thesis using ih p False ta pa 3(2)
        by (auto simp: fun_eq_iff e)
    qed
  qed
qed

lemma previous_of_remove1:
  "distinct xs \<Longrightarrow> u \<in> set xs \<Longrightarrow>
   previous_of (remove1 u xs) =
     (case next_of xs u of
        None \<Rightarrow> (previous_of xs)(u := None)
      | Some n \<Rightarrow> (previous_of xs)(n := previous_of xs u, u := None))"
proof (induction xs u rule: previous_of.induct)
  case (1 t)
  then show ?case by simp
next
  case (2 a t)
  then show ?case by (auto simp: fun_eq_iff)
next
  case (3 a b xs t)
  show ?case
  proof (cases "t = a")
    case True
    then show ?thesis using 3(2) by (auto simp: fun_eq_iff previous_of_Cons split: list.splits)
  next
    case False
    note ta = this
    show ?thesis
    proof (cases "t = b")
      case True
      then show ?thesis using 3(2)
        by (cases xs) (auto simp: fun_eq_iff previous_of_Cons split: list.splits)
    next
      case False
      then have ih: "previous_of (remove1 t (b # xs)) =
         (case next_of (b # xs) t of
            None \<Rightarrow> (previous_of (b # xs))(t := None)
          | Some n \<Rightarrow> (previous_of (b # xs))(n := previous_of (b # xs) t, t := None))"
        using 3 ta by auto
      have e: "previous_of (remove1 t (a # b # xs)) = previous_of (a # b # remove1 t xs)"
        using ta False by simp
      have r: "remove1 t (b # xs) = b # remove1 t xs" using False by simp
      have nb: "next_of (b # xs) t \<noteq> Some b" using 3(2) next_of_not_hd[of b xs t] by simp
      have na: "next_of (b # xs) t \<noteq> Some a" using 3(2) next_of_Some[of "b # xs" t a] by auto
      show ?thesis using ih False ta nb na 3(2) unfolding e r
        by (auto simp: fun_eq_iff split: option.splits)
    qed
  qed
qed

lemma hd_remove1:
  "distinct xs \<Longrightarrow> u \<in> set xs \<Longrightarrow>
   (case remove1 u xs of [] \<Rightarrow> None | a # _ \<Rightarrow> Some a)
     = (if u = hd xs then next_of xs u else Some (hd xs))"
  by (cases xs) (auto simp: next_of_Cons split: list.splits)

lemma last_remove1:
  "distinct xs \<Longrightarrow> u \<in> set xs \<Longrightarrow>
   (if remove1 u xs = [] then None else Some (last (remove1 u xs)))
     = (if u = last xs then previous_of xs u else Some (last xs))"
proof (induction xs u rule: previous_of.induct)
  case (3 a b xs t)
  then show ?case by (cases xs) (auto split: if_splits)
qed auto

lemma queue_of_head: "queue_of q xs \<Longrightarrow> t \<in> set xs \<Longrightarrow> head q = Some t \<longleftrightarrow> t = hd xs"
  by (cases xs) (auto simp: queue_of_def)

lemma queue_of_tail: "queue_of q xs \<Longrightarrow> t \<in> set xs \<Longrightarrow> tail q = Some t \<longleftrightarrow> t = last xs"
  by (cases xs) (auto simp: queue_of_def)

lemma queue_remove_wf:
  assumes "queue_of q xs" "item \<in> set xs"
  shows "\<exists>q'. queue_remove item q = Inr q' \<and> queue_of q' (remove1 item xs)
           \<and> lastBeforeStartOfFrame q' =
               (if lastBeforeStartOfFrame q = Some item then next_of xs item
                else lastBeforeStartOfFrame q)
           \<and> tileState q' = tileState q \<and> resources q' = resources q \<and> children q' = children q"
proof -
  have d: "distinct xs" and h: "head q = (case xs of [] \<Rightarrow> None | a # _ \<Rightarrow> Some a)"
    and tl: "tail q = (if xs = [] then None else Some (last xs))"
    and c: "count q = int (length xs)"
    and n: "replacementNext q = next_of xs" and p: "replacementPrevious q = previous_of xs"
    using assms(1) by (simp_all add: queue_of_def)
  have hd_iff: "head q = Some item \<longleftrightarrow> item = hd xs" by (rule queue_of_head[OF assms])
  have tl_iff: "tail q = Some item \<longleftrightarrow> item = last xs" by (rule queue_of_tail[OF assms])
  have pN: "previous_of xs item = None \<longleftrightarrow> item = hd xs" by (rule previous_of_None_iff[OF d assms(2)])
  have nN: "next_of xs item = None \<longleftrightarrow> item = last xs" by (rule next_of_None_iff[OF d assms(2)])
  have len: "int (length (remove1 item xs)) = int (length xs) - 1"
    using assms(2) by (simp add: length_remove1) (cases xs, auto)
  have ne: "xs \<noteq> []" using assms(2) by auto
  note r1 = next_of_remove1[OF d assms(2)] previous_of_remove1[OF d assms(2)]
    hd_remove1[OF d assms(2)] last_remove1[OF d assms(2)]
  have h': "head q = Some (hd xs)" and tl': "tail q = Some (last xs)"
    using h tl ne by (cases xs, auto)+
  have single: "xs = [item]" if "item = hd xs" "item = last xs"
  proof (cases xs)
    case Nil
    then show ?thesis using ne by simp
  next
    case (Cons a ys)
    have "ys = []"
    proof (rule ccontr)
      assume "ys \<noteq> []"
      then have "last xs \<in> set ys" using Cons by simp
      then show False using that d Cons by auto
    qed
    then show ?thesis using that Cons by simp
  qed
  show ?thesis
  proof (cases "item = hd xs")
    case True
    note isHd = this
    show ?thesis
    proof (cases "item = last xs")
      case True
      have xs: "xs = [item]" by (rule single[OF isHd True])
      show ?thesis using h tl c n p unfolding xs
        by (auto simp: queue_remove_def Let_def queue_of_def fun_eq_iff)
    next
      case False
      then obtain nx where nx: "next_of xs item = Some nx" using nN by auto
      have pv: "previous_of xs item = None" using pN isHd by simp
      have "queue_remove item q =
         Inr ((if Some item = lastBeforeStartOfFrame q then q\<lparr>lastBeforeStartOfFrame := Some nx\<rparr> else q)
               \<lparr>head := Some nx,
                replacementPrevious := (previous_of xs)(nx := None, item := None),
                replacementNext := (next_of xs)(item := None),
                count := int (length xs) - 1\<rparr>)"
        using False isHd hd_iff tl_iff nx pv c n p
        by (auto simp add: queue_remove_def Let_def eq_commute[of "Some item"])
      then show ?thesis using r1 nx pv False isHd d tl' len
        by (auto simp: queue_of_def)
    qed
  next
    case False
    note notHd = this
    then obtain pv where pv: "previous_of xs item = Some pv" using pN by auto
    show ?thesis
    proof (cases "item = last xs")
      case True
      have nx: "next_of xs item = None" using nN True by simp
      have "queue_remove item q =
         Inr ((if Some item = lastBeforeStartOfFrame q then q\<lparr>lastBeforeStartOfFrame := None\<rparr> else q)
               \<lparr>replacementNext := (next_of xs)(pv := None, item := None),
                tail := Some pv,
                replacementPrevious := (previous_of xs)(item := None),
                count := int (length xs) - 1\<rparr>)"
        using True notHd hd_iff tl_iff nx pv c n p
        by (auto simp add: queue_remove_def Let_def eq_commute[of "Some item"])
      then show ?thesis using r1 nx pv True notHd d h' len
        by (auto simp: queue_of_def)
    next
      case False
      then obtain nx where nx: "next_of xs item = Some nx" using nN by auto
      have "queue_remove item q =
         Inr ((if Some item = lastBeforeStartOfFrame q then q\<lparr>lastBeforeStartOfFrame := Some nx\<rparr> else q)
               \<lparr>replacementNext := (next_of xs)(pv := Some nx, item := None),
                replacementPrevious := (previous_of xs)(nx := Some pv, item := None),
                count := int (length xs) - 1\<rparr>)"
        using False notHd hd_iff tl_iff nx pv c n p
        by (auto simp add: queue_remove_def Let_def eq_commute[of "Some item"])
      then show ?thesis using r1 nx pv False notHd d h' tl' len
        by (auto simp: queue_of_def)
    qed
  qed
qed

lemma insertAtHead_eq:
  assumes "replacementNext q = next_of (h # ys)" "replacementPrevious q = previous_of (h # ys)"
    "head q = Some h" "distinct (h # ys)" "item \<notin> set (h # ys)"
  shows "insertAtHead item h q =
           q\<lparr>replacementPrevious := previous_of (item # h # ys),
             replacementNext := next_of (item # h # ys), head := Some item\<rparr>"
proof -
  have p: "previous_of (h # ys) h = None" using assms(4) by simp
  have a: "(previous_of (h # ys))(item := None, h := Some item) = previous_of (item # h # ys)"
    using assms(4,5) by (auto simp: fun_eq_iff)
  have b: "(next_of (h # ys))(item := Some h) = next_of (item # h # ys)"
    using assms(4,5) by (auto simp: fun_eq_iff)
  show ?thesis using assms(1,2,3) p a b
    by (simp add: insertAtHead_def Let_def)
qed

lemma markTileRendered_wf:
  assumes "queue_of q xs"
  shows "\<exists>q'. markTileRendered item q = Inr q' \<and> queue_of q' (item # remove1 item xs)
           \<and> lastBeforeStartOfFrame q' =
               (if lastBeforeStartOfFrame q = Some item \<and> item \<in> set xs then next_of xs item
                else lastBeforeStartOfFrame q)
           \<and> tileState q' = tileState q \<and> resources q' = resources q \<and> children q' = children q"
proof (cases xs)
  case Nil
  then show ?thesis using assms
    by (auto simp: markTileRendered_def Let_def queue_of_def fun_eq_iff)
next
  case (Cons h ys)
  have d: "distinct xs" and hq: "head q = Some h"
    and c: "count q = int (length xs)"
    and n: "replacementNext q = next_of xs" and p: "replacementPrevious q = previous_of xs"
    and tq: "tail q = Some (last xs)"
    using assms Cons by (simp_all add: queue_of_def)
  show ?thesis
  proof (cases "item = h")
    case True
    then have "item # remove1 item xs = xs" using Cons by simp
    then show ?thesis using True assms hq Cons
      by (auto simp: markTileRendered_def Let_def queue_of_def)
  next
    case False
    note notHd = this
    let ?q1 = "q\<lparr>count := count q + 1\<rparr>"
    show ?thesis
    proof (cases "item \<in> set xs")
      case True
      have pv: "previous_of xs item \<noteq> None"
        using previous_of_None_iff[OF d True] notHd Cons by simp
      have q1: "queue_of (?q1\<lparr>count := count ?q1 - 1\<rparr>) xs" using assms by (simp add: queue_of_def)
      have rm: "queue_remove item ?q1
                  = map_sum id (\<lambda>r. r\<lparr>count := count r + 1\<rparr>) (queue_remove item (?q1\<lparr>count := count ?q1 - 1\<rparr>))"
        by (auto simp: queue_remove_def Let_def split: option.splits)
      from queue_remove_wf[OF q1 True] obtain q2 where
        q2: "queue_remove item (?q1\<lparr>count := count ?q1 - 1\<rparr>) = Inr q2"
           "queue_of q2 (remove1 item xs)"
           "lastBeforeStartOfFrame q2 =
               (if lastBeforeStartOfFrame q = Some item then next_of xs item
                else lastBeforeStartOfFrame q)"
           "tileState q2 = tileState q" "resources q2 = resources q" "children q2 = children q"
        by auto
      let ?q2 = "q2\<lparr>count := count q2 + 1\<rparr>"
      have r: "remove1 item xs = h # remove1 item ys" using Cons notHd by simp
      have iy: "item \<in> set ys" using True notHd Cons by simp
      have l2: "replacementNext ?q2 = next_of (h # remove1 item ys)"
        "replacementPrevious ?q2 = previous_of (h # remove1 item ys)"
        "head ?q2 = Some h" "distinct (h # remove1 item ys)" "item \<notin> set (h # remove1 item ys)"
        "count ?q2 = int (length xs)" "tail ?q2 = Some (last (h # remove1 item ys))"
        using q2(2) d notHd Cons iy length_pos_if_in_set[OF iy] unfolding r
        by (auto simp: queue_of_def length_remove1)
      have "markTileRendered item q = Inr (insertAtHead item h ?q2)"
        using notHd hq pv p rm q2(1) by (simp add: markTileRendered_def Let_def)
      then show ?thesis
        unfolding insertAtHead_eq[OF l2(1-5)]
        using l2 q2(3-6) True d Cons notHd length_pos_if_in_set[OF iy]
        by (auto simp: queue_of_def r length_remove1 simp del: next_of.simps previous_of.simps)
    next
      case False
      have l1: "replacementNext ?q1 = next_of (h # ys)" "replacementPrevious ?q1 = previous_of (h # ys)"
        "head ?q1 = Some h" "distinct (h # ys)" "item \<notin> set (h # ys)"
        using n p hq d False Cons by simp_all
      have "markTileRendered item q = Inr (insertAtHead item h ?q1)"
        using notHd hq False p n by (simp add: markTileRendered_def Let_def)
      then show ?thesis
        unfolding insertAtHead_eq[OF l1] using False d Cons c tq remove1_idem[of item ys]
        by (auto simp: queue_of_def simp del: next_of.simps previous_of.simps)
    qed
  qed
qed

lemma walk_None [simp]: "walk link n None = []"
  by (cases n) auto

lemma next_of_append:
  "distinct (pre @ a # post) \<Longrightarrow>
   next_of (pre @ a # post) a = (case post of [] \<Rightarrow> None | b # _ \<Rightarrow> Some b)"
  by (induction pre) (auto simp: next_of_Cons split: list.splits)

lemma previous_of_append:
  "distinct (pre @ a # post) \<Longrightarrow>
   previous_of (pre @ a # post) a = (if pre = [] then None else Some (last pre))"
proof (induction pre)
  case Nil
  then show ?case by simp
next
  case (Cons b pre)
  then show ?case by (cases pre) (auto simp: previous_of_Cons)
qed

lemma walk_next_of:
  "distinct (pre @ a # post) \<Longrightarrow>
   walk (next_of (pre @ a # post)) n (Some a) = take n (a # post)"
proof (induction post arbitrary: pre a n)
  case Nil
  then show ?case by (cases n) (auto simp: next_of_append)
next
  case (Cons b post)
  show ?case
  proof (cases n)
    case 0
    then show ?thesis by simp
  next
    case (Suc k)
    have "walk (next_of ((pre @ [a]) @ b # post)) k (Some b) = take k (b # post)"
      by (rule Cons.IH) (use Cons.prems in auto)
    then show ?thesis using Suc next_of_append[OF Cons.prems] by simp
  qed
qed

lemma walk_previous_of:
  "distinct (pre @ a # post) \<Longrightarrow>
   walk (previous_of (pre @ a # post)) n (Some a) = take n (a # rev pre)"
proof (induction pre arbitrary: post a n rule: rev_induct)
  case Nil
  then show ?case by (cases n) (auto simp: previous_of_append[of "[]", simplified])
next
  case (snoc b pre)
  show ?case
  proof (cases n)
    case 0
    then show ?thesis by simp
  next
    case (Suc k)
    have "walk (previous_of (pre @ b # a # post)) k (Some b) = take k (b # rev pre)"
      by (rule snoc.IH) (use snoc.prems in auto)
    then show ?thesis using Suc previous_of_append[OF snoc.prems] by simp
  qed
qed

lemma queue_of_walk:
  assumes "queue_of q xs" "length xs \<le> n"
  shows "walk (replacementNext q) n (head q) = xs"
    and "walk (replacementPrevious q) n (tail q) = rev xs"
proof -
  show "walk (replacementNext q) n (head q) = xs"
  proof (cases xs)
    case Nil
    then show ?thesis using assms by (simp add: queue_of_def)
  next
    case (Cons a ys)
    then show ?thesis using assms walk_next_of[of "[]" a ys n] by (simp add: queue_of_def)
  qed
  show "walk (replacementPrevious q) n (tail q) = rev xs"
  proof (cases xs rule: rev_cases)
    case Nil
    then show ?thesis using assms by (simp add: queue_of_def)
  next
    case (snoc ys a)
    then show ?thesis using assms walk_previous_of[of ys a "[]" n] by (simp add: queue_of_def)
  qed
qed

lemma recency_snoc: "recency (ts @ [t]) = t # remove1 t (recency ts)"
  by (simp add: recency_def)

lemma recency_set: "distinct (recency ts) \<and> set (recency ts) = set ts"
proof (induction ts rule: rev_induct)
  case Nil
  then show ?case by (simp add: recency_def)
next
  case (snoc t ts)
  then show ?case by (auto simp: recency_snoc)
qed

lemma recency_hd: "ts \<noteq> [] \<Longrightarrow> hd (recency ts) = last ts"
  by (cases ts rule: rev_cases) (auto simp: recency_snoc)

lemma performAll_append:
  "performAll (cs @ ds) q =
     (case performAll cs q of Some (Inr q') \<Rightarrow> performAll ds q' | r \<Rightarrow> r)"
  by (induction cs arbitrary: q) (auto split: option.splits sum.splits)

lemma queue_of_empty: "queue_of (TileReplacementQueue st rs ch) []"
  by (simp add: queue_of_def TileReplacementQueue_def fun_eq_iff)

lemma marks_wf:
  "\<exists>q. performAll (map MarkTileRendered ts) (TileReplacementQueue st rs ch) = Some (Inr q)
       \<and> queue_of q (recency ts)"
proof (induction ts rule: rev_induct)
  case Nil
  then show ?case using queue_of_empty by (simp add: recency_def)
next
  case (snoc t ts)
  then obtain q where q: "performAll (map MarkTileRendered ts) (TileReplacementQueue st rs ch) = Some (Inr q)"
    "queue_of q (recency ts)" by auto
  from markTileRendered_wf[OF q(2), of t] obtain q' where
    "markTileRendered t q = Inr q'" "queue_of q' (t # remove1 t (recency ts))" by auto
  then show ?case using q(1) by (simp add: performAll_append recency_snoc)
qed

text \<open>
  Claim C4. After any sequence of \<open>markTileRendered\<close> calls on an empty queue (no call throws),
  the queue is a well-formed doubly linked list of the marked tiles in order of recency:
  following the next links from the head, and the previous links from the tail, visits every
  marked tile exactly once; the count is the number of distinct tiles marked; and the head is
  the tile marked last.
\<close>

theorem markTileRendered_lru:
  "\<exists>q. performAll (map MarkTileRendered ts) (TileReplacementQueue st rs ch) = Some (Inr q)
       \<and> queue_of q (recency ts)
       \<and> walk (replacementNext q) (Suc (length ts)) (head q) = recency ts
       \<and> walk (replacementPrevious q) (Suc (length ts)) (tail q) = rev (recency ts)
       \<and> distinct (recency ts) \<and> set (recency ts) = set ts
       \<and> count q = int (card (set ts))
       \<and> (ts \<noteq> [] \<longrightarrow> head q = Some (last ts))"
proof -
  from marks_wf[of ts st rs ch] obtain q where
    q: "performAll (map MarkTileRendered ts) (TileReplacementQueue st rs ch) = Some (Inr q)"
    "queue_of q (recency ts)" by auto
  have ds: "distinct (recency ts)" "set (recency ts) = set ts" using recency_set by auto
  have len: "length (recency ts) = card (set ts)" using ds distinct_card by metis
  have le: "length (recency ts) \<le> Suc (length ts)"
    unfolding len using card_length[of ts] by simp
  have c: "count q = int (card (set ts))" using q(2) len by (simp add: queue_of_def)
  have h: "head q = Some (last ts)" if "ts \<noteq> []"
  proof -
    have "recency ts \<noteq> []" using ds(2) that by auto
    then show ?thesis using q(2) recency_hd[OF that] by (cases "recency ts") (auto simp: queue_of_def)
  qed
  show ?thesis using q ds c h queue_of_walk[OF q(2) le] by blast
qed

theorem markTileRendered_lru_witness:
  "[1, 2, 1, 3] \<noteq> ([] :: nat list)
   \<and> (\<exists>q. performAll (map MarkTileRendered [1, 2, 1, 3]) sampleQueue = Some (Inr q)
          \<and> walk (replacementNext q) 5 (head q) = [3, 1, 2]
          \<and> walk (replacementPrevious q) 5 (tail q) = [2, 1, 3]
          \<and> count q = 3 \<and> head q = Some 3)"
proof -
  have r: "recency [1, 2, 1, 3] = [3, 1, 2]" by (simp add: recency_def)
  have "set [1, 2, 1, 3 :: nat] = set [3, 1, 2]" by auto
  moreover have "card (set [3, 1, 2 :: nat]) = length [3, 1, 2 :: nat]"
    by (rule distinct_card) simp
  ultimately have c: "card (set [1, 2, 1, 3 :: nat]) = 3" by simp
  from markTileRendered_lru[of "[1, 2, 1, 3]" "\<lambda>t. READY" loadedResources "\<lambda>t. []"]
  show ?thesis unfolding r c sampleQueue_def by auto
qed

lemma sameQueue_refl [simp]: "sameQueue q q"
  by (simp add: sameQueue_def)

lemma sameQueue_trans: "sameQueue q q' \<Longrightarrow> sameQueue q' q'' \<Longrightarrow> sameQueue q q''"
  by (simp add: sameQueue_def)

lemma untouched_refl [simp]: "untouched q q t"
  by (simp add: untouched_def)

lemma untouched_trans: "untouched q q' t \<Longrightarrow> untouched q' q'' t \<Longrightarrow> untouched q q'' t"
  by (simp add: untouched_def)

lemma fold_freeTree_sameQueue:
  "(\<And>c r. c \<in> set cs \<Longrightarrow> sameQueue r (freeTree c r)) \<Longrightarrow> sameQueue q (fold freeTree cs q)"
proof (induction cs arbitrary: q)
  case Nil
  then show ?case by simp
next
  case (Cons c cs)
  have "sameQueue q (freeTree c q)" using Cons.prems by simp
  moreover have "sameQueue (freeTree c q) (fold freeTree cs (freeTree c q))"
    by (rule Cons.IH) (use Cons.prems in simp)
  ultimately show ?case using sameQueue_trans by simp
qed

lemma freeTree_sameQueue: "sameQueue q (freeTree tr q)"
proof (induction tr arbitrary: q)
  case (TileTree t cs)
  have "sameQueue q (releaseTile t q)" by (simp add: sameQueue_def releaseTile_def)
  moreover have "sameQueue (releaseTile t q) (fold freeTree cs (releaseTile t q))"
    by (rule fold_freeTree_sameQueue) (use TileTree.IH in simp)
  ultimately show ?case using sameQueue_trans by simp
qed

lemma fold_freeTree_untouched:
  "(\<And>c r. c \<in> set cs \<Longrightarrow> t \<notin> tree_ids c \<Longrightarrow> untouched r (freeTree c r) t) \<Longrightarrow>
   t \<notin> \<Union> (tree_ids ` set cs) \<Longrightarrow> untouched q (fold freeTree cs q) t"
proof (induction cs arbitrary: q)
  case Nil
  then show ?case by simp
next
  case (Cons c cs)
  have "untouched q (freeTree c q) t" using Cons.prems by simp
  moreover have "untouched (freeTree c q) (fold freeTree cs (freeTree c q)) t"
    by (rule Cons.IH) (use Cons.prems in auto)
  ultimately show ?case using untouched_trans by simp
qed

lemma freeTree_untouched: "t \<notin> tree_ids tr \<Longrightarrow> untouched q (freeTree tr q) t"
proof (induction tr arbitrary: q)
  case (TileTree u cs)
  have "untouched q (releaseTile u q) t" using TileTree.prems by (simp add: untouched_def releaseTile_def)
  moreover have "untouched (releaseTile u q) (fold freeTree cs (releaseTile u q)) t"
    by (rule fold_freeTree_untouched) (use TileTree in auto)
  ultimately show ?case using untouched_trans by simp
qed

lemma freeResources_sameQueue: "sameQueue q (freeResources t q)"
  unfolding freeResources_def by (rule freeTree_sameQueue)

lemma freeResources_untouched: "t \<noteq> u \<Longrightarrow> t \<notin> below q u \<Longrightarrow> untouched q (freeResources u q) t"
  unfolding freeResources_def by (rule freeTree_untouched) (simp add: below_def)

lemma freeResources_UNLOADED:
  "u \<notin> below q u \<Longrightarrow> tileState (freeResources u q) u = UNLOADED"
proof -
  assume a: "u \<notin> below q u"
  have "untouched (releaseTile u q) (fold freeTree (children q u) (releaseTile u q)) u"
    by (rule fold_freeTree_untouched) (use a in \<open>auto simp: below_def freeTree_untouched\<close>)
  then show ?thesis by (simp add: freeResources_def untouched_def releaseTile_def)
qed

lemma sameQueue_queue_of: "sameQueue q q' \<Longrightarrow> queue_of q xs \<Longrightarrow> queue_of q' xs"
  by (simp add: sameQueue_def queue_of_def)

lemma trimLoop_stop: "trimLoop maxTiles tileToTrim False q = Some (Inr q)"
  by (subst trimLoop.simps) (simp split: option.splits)

lemma trimLoop_enough: "\<not> maxTiles < count q \<Longrightarrow> trimLoop maxTiles tileToTrim keep q = Some (Inr q)"
  by (subst trimLoop.simps) (simp split: option.splits)

lemma trimLoop_step:
  assumes "lastBeforeStartOfFrame q \<noteq> None" "maxTiles < count q"
  shows "trimLoop maxTiles (Some t) True q =
     (if tileState q t \<noteq> TRANSITIONING then
        (case queue_remove t (freeResources t q) of
           Inl e \<Rightarrow> Some (Inl e)
         | Inr q' \<Rightarrow> trimLoop maxTiles (replacementPrevious q t) (Some t \<noteq> lastBeforeStartOfFrame q) q')
      else trimLoop maxTiles (replacementPrevious q t) (Some t \<noteq> lastBeforeStartOfFrame q) q)"
  by (subst trimLoop.simps) (use assms in \<open>simp add: Let_def\<close>)

lemma free_and_remove:
  assumes "queue_of q xs" "t \<in> set xs"
  shows "\<exists>q2. queue_remove t (freeResources t q) = Inr q2 \<and> queue_of q2 (remove1 t xs)
           \<and> lastBeforeStartOfFrame q2 =
               (if lastBeforeStartOfFrame q = Some t then next_of xs t else lastBeforeStartOfFrame q)
           \<and> children q2 = children q
           \<and> (\<forall>u. u \<noteq> t \<and> u \<notin> below q t \<longrightarrow> untouched q q2 u)"
proof -
  let ?q1 = "freeResources t q"
  have s: "sameQueue q ?q1" by (rule freeResources_sameQueue)
  have w: "queue_of ?q1 xs" by (rule sameQueue_queue_of[OF s assms(1)])
  from queue_remove_wf[OF w assms(2)] obtain q2 where
    q2: "queue_remove t ?q1 = Inr q2" "queue_of q2 (remove1 t xs)"
      "lastBeforeStartOfFrame q2 =
         (if lastBeforeStartOfFrame ?q1 = Some t then next_of xs t else lastBeforeStartOfFrame ?q1)"
      "tileState q2 = tileState ?q1" "resources q2 = resources ?q1" "children q2 = children ?q1"
    by auto
  have "untouched q q2 u" if "u \<noteq> t" "u \<notin> below q t" for u
    using freeResources_untouched[OF that] q2(4,5) by (simp add: untouched_def)
  then show ?thesis using q2 s by (auto simp: sameQueue_def)
qed

lemma trimLoop_run:
  assumes "queue_of q (A @ m # B @ K)" "lastBeforeStartOfFrame q = Some m"
  shows "\<exists>q' ys. trimLoop maxTiles (Some (last (m # B))) True q = Some (Inr q')
           \<and> queue_of q' (A @ ys @ K) \<and> set ys \<subseteq> set (m # B)
           \<and> children q' = children q \<and> protected q q' (m # B) ys"
  using assms
proof (induction B arbitrary: q K rule: rev_induct)
  case Nil
  let ?L = "A @ m # K"
  have wf: "queue_of q ?L" using Nil.prems(1) by simp
  show ?case
  proof (cases "maxTiles < count q")
    case False
    then have "trimLoop maxTiles (Some (last [m])) True q = Some (Inr q)"
      by (rule trimLoop_enough)
    moreover have "protected q q [m] [m]" by (simp add: protected_def)
    ultimately show ?thesis using wf by (intro exI[of _ q] exI[of _ "[m]"]) simp
  next
    case True
    note step = trimLoop_step[OF _ True, of m, unfolded Nil.prems(2), simplified]
    show ?thesis
    proof (cases "tileState q m = TRANSITIONING")
      case True
      then have "trimLoop maxTiles (Some (last [m])) True q = Some (Inr q)"
        using step by (simp add: trimLoop_stop)
      moreover have "protected q q [m] [m]" by (simp add: protected_def)
      ultimately show ?thesis using wf by (intro exI[of _ q] exI[of _ "[m]"]) simp
    next
      case False
      have d: "distinct ?L" using wf by (simp add: queue_of_def)
      from free_and_remove[OF wf, of m] obtain q2 where
        q2: "queue_remove m (freeResources m q) = Inr q2" "queue_of q2 (remove1 m ?L)"
          "children q2 = children q" "\<forall>u. u \<noteq> m \<and> u \<notin> below q m \<longrightarrow> untouched q q2 u"
        by auto
      have r: "remove1 m ?L = A @ K" using d by (simp add: remove1_append)
      have "trimLoop maxTiles (Some (last [m])) True q = Some (Inr q2)"
        using step False q2(1) by (simp add: trimLoop_stop)
      moreover have "protected q q2 [m] []" using q2(4) False by (auto simp: protected_def)
      ultimately show ?thesis using q2(2,3) r by (intro exI[of _ q2] exI[of _ "[]"]) simp
    qed
  qed
next
  case (snoc t B)
  let ?L = "A @ m # B @ t # K"
  have wf: "queue_of q ?L" using snoc.prems(1) by simp
  have d: "distinct ?L" using wf by (simp add: queue_of_def)
  have tm: "t \<noteq> m" using d by auto
  have all: "protected q q (m # B @ [t]) (m # B @ [t])" by (simp add: protected_def)
  show ?case
  proof (cases "maxTiles < count q")
    case False
    then have "trimLoop maxTiles (Some (last (m # B @ [t]))) True q = Some (Inr q)"
      by (rule trimLoop_enough)
    then show ?thesis using wf all by (intro exI[of _ q] exI[of _ "m # B @ [t]"]) simp
  next
    case True
    have pv: "replacementPrevious q t = Some (last (m # B))"
    proof -
      have "previous_of ((A @ m # B) @ t # K) t = Some (last (A @ m # B))"
        using previous_of_append[of "A @ m # B" t K] d by simp
      then show ?thesis using wf by (simp add: queue_of_def)
    qed
    note step = trimLoop_step[OF _ True, of t, unfolded snoc.prems(2) pv, simplified]
    show ?thesis
    proof (cases "tileState q t = TRANSITIONING")
      case True
      have run: "trimLoop maxTiles (Some (last (m # B @ [t]))) True q
                   = trimLoop maxTiles (Some (last (m # B))) True q"
        using step True tm by simp
      have "queue_of q (A @ m # B @ (t # K))" using wf by simp
      from snoc.IH[OF this snoc.prems(2)] obtain q' ys where
        r: "trimLoop maxTiles (Some (last (m # B))) True q = Some (Inr q')"
          "queue_of q' (A @ ys @ t # K)" "set ys \<subseteq> set (m # B)" "children q' = children q"
          "protected q q' (m # B) ys" by auto
      have "protected q q' (m # B @ [t]) (ys @ [t])"
        using r(5) True unfolding protected_def by auto
      then show ?thesis using r(1-4) run
        by (intro exI[of _ q'] exI[of _ "ys @ [t]"]) auto
    next
      case False
      from free_and_remove[OF wf, of t] obtain q2 where
        q2: "queue_remove t (freeResources t q) = Inr q2" "queue_of q2 (remove1 t ?L)"
          "lastBeforeStartOfFrame q2 =
               (if lastBeforeStartOfFrame q = Some t then next_of ?L t else lastBeforeStartOfFrame q)"
          "children q2 = children q" "\<forall>u. u \<noteq> t \<and> u \<notin> below q t \<longrightarrow> untouched q q2 u"
        by auto
      have rm: "remove1 t ?L = A @ m # B @ K"
      proof -
        have "t \<notin> set (A @ m # B)" using d by auto
        then have "remove1 t ((A @ m # B) @ t # K) = (A @ m # B) @ remove1 t (t # K)"
          by (simp only: remove1_append if_False)
        then show ?thesis by simp
      qed
      have lb: "lastBeforeStartOfFrame q2 = Some m" using q2(3) snoc.prems(2) tm by simp
      have run: "trimLoop maxTiles (Some (last (m # B @ [t]))) True q
                   = trimLoop maxTiles (Some (last (m # B))) True q2"
        using step False tm q2(1) by simp
      have "queue_of q2 (A @ m # B @ K)" using q2(2) rm by simp
      from snoc.IH[OF this lb] obtain q' ys where
        r: "trimLoop maxTiles (Some (last (m # B))) True q2 = Some (Inr q')"
          "queue_of q' (A @ ys @ K)" "set ys \<subseteq> set (m # B)" "children q' = children q2"
          "protected q2 q' (m # B) ys" by auto
      have bl: "below q2 = below q" using q2(4) by (simp add: below_def fun_eq_iff)
      have "protected q q' (m # B @ [t]) ys"
        unfolding protected_def
      proof (intro allI impI)
        fix u assume u: "u \<notin> (\<Union>v\<in>set (m # B @ [t]). below q v)"
        then have u2: "u \<notin> (\<Union>v\<in>set (m # B). below q2 v)" and ut: "u \<notin> below q t"
          unfolding bl by auto
        have a: "untouched q q' u" if "u \<notin> set (m # B @ [t])"
        proof -
          have "untouched q q2 u" using q2(5) that ut by auto
          moreover have "untouched q2 q' u" using r(5) u2 that unfolding protected_def by auto
          ultimately show ?thesis by (rule untouched_trans)
        qed
        have b: "untouched q q' u \<and> (u \<in> set (m # B @ [t]) \<longrightarrow> u \<in> set ys)"
          if "tileState q u = TRANSITIONING"
        proof -
          have ne: "u \<noteq> t" using that False by auto
          then have 1: "untouched q q2 u" using q2(5) ut by auto
          then have "tileState q2 u = TRANSITIONING" using that by (simp add: untouched_def)
          then have 2: "untouched q2 q' u \<and> (u \<in> set (m # B) \<longrightarrow> u \<in> set ys)"
            using r(5) u2 unfolding protected_def by auto
          show ?thesis using untouched_trans[OF 1] 2 ne by auto
        qed
        show "(u \<notin> set (m # B @ [t]) \<longrightarrow> untouched q q' u) \<and>
              (tileState q u = TRANSITIONING \<longrightarrow>
                 untouched q q' u \<and> (u \<in> set (m # B @ [t]) \<longrightarrow> u \<in> set ys))"
          using a b by blast
      qed
      then show ?thesis using r(1-4) run q2(4)
        by (intro exI[of _ q'] exI[of _ ys]) auto
    qed
  qed
qed

lemma frameQueue_reached:
  "performAll [MarkTileRendered 1, MarkTileRendered 2, MarkStartOfRenderFrame, MarkTileRendered 3]
     (TileReplacementQueue st loadedResources ch) = Some (Inr (frameQueue st ch))"
  by (simp add: markTileRendered_def markStartOfRenderFrame_def TileReplacementQueue_def
      insertAtHead_def frameQueue_def Let_def fun_eq_iff)

lemma frameQueue_wf: "queue_of (frameQueue st ch) ([3] @ 2 # [1])"
  by (simp add: queue_of_def frameQueue_def)

text \<open>
  Claim C3, as amended. On a well-formed queue whose marker \<open>lastBeforeStartOfFrame\<close> is
  linked, \<open>trimTiles\<close> returns, for every \<open>maxTiles\<close>, and unlinks only tiles from the marker
  (the marker included) to the tail: the tiles between the head and the marker stay linked, in
  their order. A tile that is not a descendant of a tile from the marker to the tail keeps its
  state and its resources when it lies before the marker or outside the queue; and when its
  state is TRANSITIONING it keeps its state and its resources and stays linked.
\<close>

theorem trimTiles_spares:
  assumes "queue_of q (A @ m # B)" "lastBeforeStartOfFrame q = Some m"
  shows "\<exists>q' ys. trimTiles maxTiles q = Some (Inr q') \<and> queue_of q' (A @ ys)
           \<and> set ys \<subseteq> set (m # B)
           \<and> (\<forall>t. t \<notin> (\<Union>u\<in>set (m # B). below q u) \<longrightarrow>
                 (t \<notin> set (m # B) \<longrightarrow>
                    tileState q' t = tileState q t \<and> resources q' t = resources q t)
                 \<and> (tileState q t = TRANSITIONING \<longrightarrow>
                      tileState q' t = TRANSITIONING \<and> resources q' t = resources q t
                      \<and> (t \<in> set (m # B) \<longrightarrow> t \<in> set ys)))"
proof -
  have tl: "tail q = Some (last (m # B))" using assms(1) by (simp add: queue_of_def)
  have "queue_of q (A @ m # B @ [])" using assms(1) by simp
  from trimLoop_run[OF this assms(2), of maxTiles] obtain q' ys where
    r: "trimLoop maxTiles (Some (last (m # B))) True q = Some (Inr q')"
      "queue_of q' (A @ ys @ [])" "set ys \<subseteq> set (m # B)" "protected q q' (m # B) ys"
    by auto
  have "trimTiles maxTiles q = Some (Inr q')" using r(1) tl by (simp add: trimTiles_def)
  then show ?thesis using r(2,3,4) unfolding protected_def untouched_def
    by (intro exI[of _ q'] exI[of _ ys]) auto
qed

lemma trimTiles_frameQueue:
  "trimTiles 0 (frameQueue ((\<lambda>t. READY)(1 := TRANSITIONING)) (\<lambda>t. [])) =
     Some (Inr \<lparr>head = Some 3, tail = Some 1, count = 2, lastBeforeStartOfFrame = Some 1,
                replacementPrevious = previous_of [3, 1], replacementNext = next_of [3, 1],
                tileState = (\<lambda>t. READY)(1 := TRANSITIONING, 2 := UNLOADED),
                resources = loadedResources(2 := released), children = (\<lambda>t. [])\<rparr>)"
proof -
  let ?q = "frameQueue ((\<lambda>t. READY)(1 := TRANSITIONING)) (\<lambda>t. [])"
  have a: "lastBeforeStartOfFrame ?q \<noteq> None" "0 < count ?q" by (simp_all add: frameQueue_def)
  have 1: "trimLoop 0 (Some 1) True ?q = trimLoop 0 (Some 2) True ?q"
    by (subst trimLoop_step[OF a]) (simp add: frameQueue_def)
  have 2: "trimLoop 0 (Some 2) True ?q =
     Some (Inr \<lparr>head = Some 3, tail = Some 1, count = 2, lastBeforeStartOfFrame = Some 1,
                replacementPrevious = previous_of [3, 1], replacementNext = next_of [3, 1],
                tileState = (\<lambda>t. READY)(1 := TRANSITIONING, 2 := UNLOADED),
                resources = loadedResources(2 := released), children = (\<lambda>t. [])\<rparr>)"
    by (subst trimLoop_step[OF a])
       (simp add: frameQueue_def freeResources_def releaseTile_def queue_remove_def Let_def
          trimLoop_stop released_def fun_eq_iff)
  show ?thesis unfolding trimTiles_def using 1 2 by (simp add: frameQueue_def)
qed

text \<open>
  Claim C3 as stated fails: in a queue 3, 2, 1 with the marker at 2 and tile 1 TRANSITIONING,
  \<open>trimTiles(0)\<close> skips tile 1 and then frees the resources of the marker tile 2 and unlinks
  it, which leaves 3, 1.
\<close>

theorem trimTiles_unlinks_marker:
  "lastBeforeStartOfFrame (frameQueue ((\<lambda>t. READY)(1 := TRANSITIONING)) (\<lambda>t. [])) = Some 2
   \<and> walk (replacementNext (frameQueue ((\<lambda>t. READY)(1 := TRANSITIONING)) (\<lambda>t. []))) 4
        (head (frameQueue ((\<lambda>t. READY)(1 := TRANSITIONING)) (\<lambda>t. []))) = [3, 2, 1]
   \<and> resources (frameQueue ((\<lambda>t. READY)(1 := TRANSITIONING)) (\<lambda>t. [])) 2 = loadedResources 2
   \<and> trimTiles 0 (frameQueue ((\<lambda>t. READY)(1 := TRANSITIONING)) (\<lambda>t. [])) =
     Some (Inr \<lparr>head = Some 3, tail = Some 1, count = 2, lastBeforeStartOfFrame = Some 1,
                replacementPrevious = previous_of [3, 1], replacementNext = next_of [3, 1],
                tileState = (\<lambda>t. READY)(1 := TRANSITIONING, 2 := UNLOADED),
                resources = loadedResources(2 := released), children = (\<lambda>t. [])\<rparr>)"
  unfolding trimTiles_frameQueue by (simp add: frameQueue_def eval_nat_numeral)

text \<open>The recursion of \<open>freeResources\<close> into the children reaches tiles the loop never visits:
  with tile 3 (at the head, TRANSITIONING) a child of tile 1, trimming tile 1 releases tile 3.\<close>

lemma trimTiles_releases_descendant:
  "trimTiles 0 (frameQueue ((\<lambda>t. READY)(3 := TRANSITIONING)) ((\<lambda>t. [])(1 := [TileTree 3 []]))) =
     Some (Inr \<lparr>head = Some 3, tail = Some 3, count = 1, lastBeforeStartOfFrame = None,
                replacementPrevious = (\<lambda>t. None), replacementNext = (\<lambda>t. None),
                tileState = (\<lambda>t. READY)(3 := UNLOADED, 1 := UNLOADED, 2 := UNLOADED),
                resources = loadedResources(1 := released, 3 := released, 2 := released),
                children = (\<lambda>t. [])(1 := [TileTree 3 []])\<rparr>)"
proof -
  let ?q = "frameQueue ((\<lambda>t. READY)(3 := TRANSITIONING)) ((\<lambda>t. [])(1 := [TileTree 3 []]))"
  let ?q1 = "\<lparr>head = Some 3, tail = Some 2, count = 2, lastBeforeStartOfFrame = Some 2,
                replacementPrevious = previous_of [3, 2], replacementNext = next_of [3, 2],
                tileState = (\<lambda>t. READY)(3 := UNLOADED, 1 := UNLOADED),
                resources = loadedResources(1 := released, 3 := released),
                children = (\<lambda>t. [])(1 := [TileTree 3 []])\<rparr>"
  let ?q2 = "\<lparr>head = Some 3, tail = Some 3, count = 1, lastBeforeStartOfFrame = None,
                replacementPrevious = (\<lambda>t. None), replacementNext = (\<lambda>t. None),
                tileState = (\<lambda>t. READY)(3 := UNLOADED, 1 := UNLOADED, 2 := UNLOADED),
                resources = loadedResources(1 := released, 3 := released, 2 := released),
                children = (\<lambda>t. [])(1 := [TileTree 3 []])\<rparr>"
  have a: "lastBeforeStartOfFrame ?q \<noteq> None" "0 < count ?q" by (simp_all add: frameQueue_def)
  have b: "lastBeforeStartOfFrame ?q1 \<noteq> None" "0 < count ?q1" by simp_all
  have r1: "queue_remove 1 (freeResources 1 ?q) = Inr ?q1"
    by (auto simp add: frameQueue_def freeResources_def releaseTile_def queue_remove_def Let_def
          released_def fun_eq_iff)
  have r2: "queue_remove 2 (freeResources 2 ?q1) = Inr ?q2"
    by (auto simp add: freeResources_def releaseTile_def queue_remove_def Let_def
          released_def fun_eq_iff)
  have 1: "trimLoop 0 (Some 1) True ?q = trimLoop 0 (Some 2) True ?q1"
    by (subst trimLoop_step[OF a], simp only: r1) (simp add: frameQueue_def)
  have 2: "trimLoop 0 (Some 2) True ?q1 = Some (Inr ?q2)"
    by (subst trimLoop_step[OF b], simp only: r2) (simp add: trimLoop_stop)
  show ?thesis unfolding trimTiles_def using 1 2 by (simp add: frameQueue_def)
qed

theorem trimTiles_spares_witness:
  "queue_of (frameQueue ((\<lambda>t. READY)(1 := TRANSITIONING)) (\<lambda>t. [])) ([3] @ 2 # [1])
   \<and> lastBeforeStartOfFrame (frameQueue ((\<lambda>t. READY)(1 := TRANSITIONING)) (\<lambda>t. [])) = Some 2
   \<and> (\<exists>q' ys. trimTiles 0 (frameQueue ((\<lambda>t. READY)(1 := TRANSITIONING)) (\<lambda>t. [])) = Some (Inr q')
          \<and> queue_of q' ([3] @ ys) \<and> set ys \<subseteq> set [2, 1]
          \<and> tileState q' 3 = READY \<and> resources q' 3 = loadedResources 3
          \<and> tileState q' 1 = TRANSITIONING \<and> resources q' 1 = loadedResources 1 \<and> 1 \<in> set ys)"
proof -
  let ?q = "frameQueue ((\<lambda>t. READY)(1 := TRANSITIONING)) (\<lambda>t. [])"
  have lb: "lastBeforeStartOfFrame ?q = Some 2" by (simp add: frameQueue_def)
  have bl: "(\<Union>u\<in>set [2, 1]. below ?q u) = {}" by (simp add: below_def frameQueue_def)
  have st: "tileState ?q 3 = READY" "tileState ?q 1 = TRANSITIONING"
    "resources ?q 3 = loadedResources 3" "resources ?q 1 = loadedResources 1"
    by (simp_all add: frameQueue_def)
  from trimTiles_spares[OF frameQueue_wf lb, of 0] obtain q' ys where
    r: "trimTiles 0 ?q = Some (Inr q')" "queue_of q' ([3] @ ys)" "set ys \<subseteq> set [2, 1]"
      "\<forall>t. t \<notin> (\<Union>u\<in>set [2, 1]. below ?q u) \<longrightarrow>
                 (t \<notin> set [2, 1] \<longrightarrow>
                    tileState q' t = tileState ?q t \<and> resources q' t = resources ?q t)
                 \<and> (tileState ?q t = TRANSITIONING \<longrightarrow>
                      tileState q' t = TRANSITIONING \<and> resources q' t = resources ?q t
                      \<and> (t \<in> set [2, 1] \<longrightarrow> t \<in> set ys))"
    by blast
  have 3: "tileState q' 3 = READY \<and> resources q' 3 = loadedResources 3"
    using r(4)[rule_format, of 3] st unfolding bl by simp
  have 1: "tileState q' 1 = TRANSITIONING \<and> resources q' 1 = loadedResources 1 \<and> 1 \<in> set ys"
    using r(4)[rule_format, of 1] st unfolding bl by simp
  show ?thesis using frameQueue_wf lb r(1-3) 1 3 by blast
qed

lemma trimTiles_no_marker:
  "lastBeforeStartOfFrame q = None \<Longrightarrow> trimTiles maxTiles q = Some (Inr q)"
  unfolding trimTiles_def by (subst trimLoop.simps) (simp split: option.splits)

end
